theory Spec2Isabelle
  imports Main
begin

section \<open>Partial persistence by node copying: the versioned node and the linked list\<close>

text \<open>
  A shallow embedding of \<^verbatim>\<open>src/time_travel/partial.py\<close>.

  Python objects are shared and mutated in place, so the nodes live in an explicit
  heap: a list of node records, the address of a node being its index. A Python value
  held in a field, a variable or a reverse set is \<open>None\<close>, an integer, or a reference
  to a node.
\<close>

subsection \<open>Values, errors, results\<close>

datatype val = VNone | VInt int | VRef nat

type_synonym tag = string
type_synonym version = int
type_synonym mod_entry = "version \<times> tag \<times> val"

text \<open>
  The exceptions the code can raise. \<open>DanglingRef\<close> stands for a reference to an
  address outside the heap; no Python object is one, it only makes the model total.
\<close>

datatype error = AssertionError | AttributeError | KeyError | RuntimeError | DanglingRef

text \<open>
  \<open>OutOfFuel\<close>: the recursion of \<open>write\<close> or a \<open>while\<close> loop did not finish within
  the fuel given.
\<close>

datatype 'a result = Ok 'a | Raise error | OutOfFuel

subsection \<open>class PartialPersistentNode\<close>

text \<open>
  \<open>self.back[var]\<close> is a Python set of nodes; it is a list without duplicates here, in
  insertion order. The order in which Python iterates a set is that of the slots of
  its hash table, which depends on the addresses of the objects; it is a parameter of
  the model, see \<open>cascade_nodes\<close> below.
\<close>

record node =
  p :: nat
  dt :: "tag list"
  pt :: "tag list"
  fields_of :: "tag \<rightharpoonup> val"
  back_of :: "tag \<rightharpoonup> val list"
  mods :: "mod_entry list"

type_synonym heap = "node list"

definition new_node :: "tag list \<Rightarrow> tag list \<Rightarrow> nat \<Rightarrow> node" where
  "new_node data_vars_tags ptr_vars_tags max_pointer_num =
     \<lparr> p = max_pointer_num, dt = data_vars_tags, pt = ptr_vars_tags,
       fields_of = map_of (map (\<lambda>var. (var, VNone)) (data_vars_tags @ ptr_vars_tags)),
       back_of = map_of (map (\<lambda>var. (var, [])) ptr_vars_tags),
       mods = [] \<rparr>"

text \<open>The loop of \<open>read\<close>: it stops at the first entry whose version exceeds \<open>v\<close>.\<close>

fun read_loop :: "tag \<Rightarrow> version \<Rightarrow> mod_entry list \<Rightarrow> val \<Rightarrow> val" where
  "read_loop var v [] res = res"
| "read_loop var v ((mod_version, mod_field, mod_value) # ms) res =
     (if mod_version > v then res
      else read_loop var v ms (if mod_field = var then mod_value else res))"

definition read :: "node \<Rightarrow> tag \<Rightarrow> version \<Rightarrow> val result" where
  "read self var v =
     (case fields_of self var of
        None \<Rightarrow> Raise AssertionError
      | Some res \<Rightarrow> Ok (read_loop var v (mods self) res))"

definition set_add :: "val \<Rightarrow> val list \<Rightarrow> val list" where
  "set_add x xs = (if x \<in> set xs then xs else xs @ [x])"

definition set_back :: "node \<Rightarrow> tag \<Rightarrow> val \<Rightarrow> val \<Rightarrow> node result" where
  "set_back self ptr new old =
     (if ptr \<notin> set (pt self) then Raise AssertionError
      else case back_of self ptr of
        None \<Rightarrow> Raise KeyError
      | Some bs \<Rightarrow>
          Ok (self\<lparr>back_of := (back_of self)(ptr \<mapsto>
                set_add new (if old \<noteq> VNone \<and> old \<in> set bs then removeAll old bs else bs))\<rparr>))"

subsection \<open>Method calls through the heap\<close>

definition lookup :: "heap \<Rightarrow> nat \<Rightarrow> node result" where
  "lookup h a = (if a < length h then Ok (h ! a) else Raise DanglingRef)"

text \<open>A method call on a value that is not a node raises \<open>AttributeError\<close>.\<close>

definition node_of :: "heap \<Rightarrow> val \<Rightarrow> (nat \<times> node) result" where
  "node_of h c =
     (case c of
        VRef a \<Rightarrow> (case lookup h a of Ok n \<Rightarrow> Ok (a, n) | Raise e \<Rightarrow> Raise e | OutOfFuel \<Rightarrow> OutOfFuel)
      | _ \<Rightarrow> Raise AttributeError)"

definition read_at :: "heap \<Rightarrow> val \<Rightarrow> tag \<Rightarrow> version \<Rightarrow> val result" where
  "read_at h c var v =
     (case node_of h c of
        Ok (a, n) \<Rightarrow> read n var v
      | Raise e \<Rightarrow> Raise e
      | OutOfFuel \<Rightarrow> OutOfFuel)"

definition set_back_at :: "heap \<Rightarrow> val \<Rightarrow> tag \<Rightarrow> val \<Rightarrow> val \<Rightarrow> heap result" where
  "set_back_at h c ptr new old =
     (case node_of h c of
        Ok (a, n) \<Rightarrow>
          (case set_back n ptr new old of
             Ok n' \<Rightarrow> Ok (h[a := n'])
           | Raise e \<Rightarrow> Raise e
           | OutOfFuel \<Rightarrow> OutOfFuel)
      | Raise e \<Rightarrow> Raise e
      | OutOfFuel \<Rightarrow> OutOfFuel)"

subsection \<open>write and the split\<close>

text \<open>\<open>new.back = {var: set(self.back[var]) for var in self.pt}\<close>\<close>

fun copy_back :: "tag list \<Rightarrow> (tag \<rightharpoonup> val list) \<Rightarrow> (tag \<rightharpoonup> val list) result" where
  "copy_back [] b = Ok Map.empty"
| "copy_back (var # vars) b =
     (case b var of
        None \<Rightarrow> Raise KeyError
      | Some xs \<Rightarrow>
          (case copy_back vars b of
             Ok m \<Rightarrow> Ok (m(var \<mapsto> xs))
           | Raise e \<Rightarrow> Raise e
           | OutOfFuel \<Rightarrow> OutOfFuel))"

text \<open>The fields of the node a split creates: the log folded, then the written field.\<close>

definition fold_mods :: "mod_entry list \<Rightarrow> (tag \<rightharpoonup> val) \<Rightarrow> (tag \<rightharpoonup> val)" where
  "fold_mods ms fs = foldl (\<lambda>m (mod_version, mod_field, mod_value). m(mod_field \<mapsto> mod_value)) fs ms"

definition split_node :: "node \<Rightarrow> tag \<Rightarrow> val \<Rightarrow> (tag \<rightharpoonup> val list) \<Rightarrow> node" where
  "split_node self var val nb =
     (new_node (dt self) (pt self) (p self))
       \<lparr> fields_of := (fold_mods (mods self) (fields_of (new_node (dt self) (pt self) (p self))))(var \<mapsto> val),
         back_of := nb \<rparr>"

text \<open>
  \<open>for ptr in self.pt: new.fields[ptr].set_back(ptr, new, self)\<close>, with \<open>new\<close> at
  address \<open>na\<close> and \<open>self\<close> at address \<open>a\<close>.
\<close>

fun fix_targets :: "tag list \<Rightarrow> nat \<Rightarrow> nat \<Rightarrow> heap \<Rightarrow> unit result \<times> heap" where
  "fix_targets [] na a h = (Ok (), h)"
| "fix_targets (ptr # ptrs) na a h =
     (case lookup h na of
        Ok new \<Rightarrow>
          (case fields_of new ptr of
             None \<Rightarrow> (Raise KeyError, h)
           | Some node_pointing_to \<Rightarrow>
               (case set_back_at h node_pointing_to ptr (VRef na) (VRef a) of
                  Ok h' \<Rightarrow> fix_targets ptrs na a h'
                | Raise e \<Rightarrow> (Raise e, h)
                | OutOfFuel \<Rightarrow> (OutOfFuel, h)))
      | Raise e \<Rightarrow> (Raise e, h)
      | OutOfFuel \<Rightarrow> (OutOfFuel, h))"

text \<open>
  The loop \<open>for node_point_to_me in new.back[ptr]: node_point_to_me.write(now, ptr, new)\<close>
  runs over a set that its own body changes: when \<open>node_point_to_me\<close> is full, its
  write splits it, and the split calls \<open>new.set_back(ptr, copy, node_point_to_me)\<close>, which
  takes \<open>node_point_to_me\<close> out of \<open>new.back[ptr]\<close> and puts its copy in. The iterator of
  a Python set walks the slots of the hash table from the first to the last and yields
  the objects it meets; before each step it raises \<open>RuntimeError\<close> if the set has not
  the size it had when the loop began. So an object that is put into the set while the
  loop runs is visited if its slot lies ahead of the iterator and is not if it lies
  behind; an object taken out before its turn is not visited.

  The slot of an object in a table depends on the address the interpreter gave the
  object. It is a parameter here: \<open>slot na ptr x\<close> is the slot of \<open>x\<close> in the table of the
  set \<open>back[ptr]\<close> of the node at address \<open>na\<close>. An object keeps its slot while one
  operation runs (a table is not rebuilt during a loop over it); each operation can
  run under another assignment of slots.
\<close>

type_synonym slots = "nat \<Rightarrow> tag \<Rightarrow> val \<Rightarrow> nat"

text \<open>The contents of \<open>new.back[ptr]\<close> now, for the node \<open>new\<close> at address \<open>na\<close>.\<close>

definition live_back :: "heap \<Rightarrow> nat \<Rightarrow> tag \<Rightarrow> val list" where
  "live_back h na ptr =
     (if na < length h then (case back_of (h ! na) ptr of Some bs \<Rightarrow> bs | None \<Rightarrow> []) else [])"

text \<open>
  The two loops that rewrite the pointers to the old node, over a writer \<open>w\<close>: the
  recursive call of \<open>write\<close>. The state of the iterator is the size \<open>n\<close> of the set when
  the loop began and the list \<open>passed\<close> of the objects whose slots it has gone past:
  those it has visited, and those that were put into the set behind it. The next
  object is the one of the least slot among the others. The loop has a fuel of its own.
\<close>

type_synonym writer = "val \<Rightarrow> version \<Rightarrow> tag \<Rightarrow> val \<Rightarrow> heap \<Rightarrow> unit result \<times> heap"

fun cascade_nodes ::
  "(val \<Rightarrow> nat) \<Rightarrow> writer \<Rightarrow> nat \<Rightarrow> nat \<Rightarrow> val list \<Rightarrow> version \<Rightarrow> tag \<Rightarrow> nat \<Rightarrow> heap \<Rightarrow>
   unit result \<times> heap" where
  "cascade_nodes sl w 0 n passed now ptr na h = (OutOfFuel, h)"
| "cascade_nodes sl w (Suc k) n passed now ptr na h =
     (if length (live_back h na ptr) \<noteq> n then (Raise RuntimeError, h)
      else case sort_key sl (filter (\<lambda>x. x \<notin> set passed) (live_back h na ptr)) of
        [] \<Rightarrow> (Ok (), h)
      | node_point_to_me # rest \<Rightarrow>
          (case w node_point_to_me now ptr (VRef na) h of
             (Ok u, h') \<Rightarrow>
               cascade_nodes sl w k n
                 (node_point_to_me # passed @
                    filter (\<lambda>y. y \<notin> set (live_back h na ptr) \<and> \<not> sl node_point_to_me < sl y)
                      (live_back h' na ptr))
                 now ptr na h'
           | (Raise e, h') \<Rightarrow> (Raise e, h')
           | (OutOfFuel, h') \<Rightarrow> (OutOfFuel, h')))"

fun cascade_ptrs ::
  "slots \<Rightarrow> writer \<Rightarrow> nat \<Rightarrow> tag list \<Rightarrow> version \<Rightarrow> nat \<Rightarrow> heap \<Rightarrow> unit result \<times> heap" where
  "cascade_ptrs slot w k [] now na h = (Ok (), h)"
| "cascade_ptrs slot w k (ptr # ptrs) now na h =
     (case lookup h na of
        Ok new \<Rightarrow>
          (case back_of new ptr of
             None \<Rightarrow> (Raise KeyError, h)
           | Some bs \<Rightarrow>
               (case cascade_nodes (slot na ptr) w k (length bs) [] now ptr na h of
                  (Ok u, h') \<Rightarrow> cascade_ptrs slot w k ptrs now na h'
                | (Raise e, h') \<Rightarrow> (Raise e, h')
                | (OutOfFuel, h') \<Rightarrow> (OutOfFuel, h')))
      | Raise e \<Rightarrow> (Raise e, h)
      | OutOfFuel \<Rightarrow> (OutOfFuel, h))"

text \<open>A call \<open>c.write(now, var, val)\<close> on a value \<open>c\<close>, over the function for nodes.\<close>

definition method_write ::
  "(nat \<Rightarrow> version \<Rightarrow> tag \<Rightarrow> val \<Rightarrow> heap \<Rightarrow> unit result \<times> heap) \<Rightarrow> writer" where
  "method_write w c now var val h =
     (case c of VRef a \<Rightarrow> w a now var val h | _ \<Rightarrow> (Raise AttributeError, h))"

text \<open>
  \<open>write\<close> on the node at address \<open>a\<close>. The fuel bounds the depth of the recursion
  through the reverse sets, and the number of turns of each loop over a reverse set.
  The node a split creates is put at the end of the heap.
\<close>

primrec write_node ::
  "slots \<Rightarrow> nat \<Rightarrow> nat \<Rightarrow> version \<Rightarrow> tag \<Rightarrow> val \<Rightarrow> heap \<Rightarrow> unit result \<times> heap" where
  "write_node slot 0 = (\<lambda>a now var val h. (OutOfFuel, h))"
| "write_node slot (Suc fuel) = (\<lambda>a now var val h.
     case lookup h a of
       Raise e \<Rightarrow> (Raise e, h)
     | OutOfFuel \<Rightarrow> (OutOfFuel, h)
     | Ok self \<Rightarrow>
         if fields_of self var = None then (Raise AssertionError, h)
         else if length (mods self) \<le> 2 * p self
         then (Ok (), h[a := self\<lparr>mods := mods self @ [(now, var, val)]\<rparr>])
         else
           (case copy_back (pt self) (back_of self) of
              Raise e \<Rightarrow> (Raise e, h)
            | OutOfFuel \<Rightarrow> (OutOfFuel, h)
            | Ok nb \<Rightarrow>
                (case fix_targets (pt self) (length h) a (h @ [split_node self var val nb]) of
                   (Ok u, h') \<Rightarrow>
                     cascade_ptrs slot (method_write (write_node slot fuel)) (Suc fuel)
                       (pt self) now (length h) h'
                 | (Raise e, h') \<Rightarrow> (Raise e, h')
                 | (OutOfFuel, h') \<Rightarrow> (OutOfFuel, h'))))"

definition write_at :: "slots \<Rightarrow> nat \<Rightarrow> writer" where
  "write_at slot fuel = method_write (write_node slot fuel)"

subsection \<open>class LinkedList\<close>

text \<open>
  \<open>self.dt\<close>, \<open>self.pt\<close> and \<open>self.p\<close> are set once by the constructor and never
  assigned again; they are constants here.
\<close>

definition ll_dt :: "tag list" where "ll_dt = [''value'']"
definition ll_pt :: "tag list" where "ll_pt = [''next_ptr'']"
definition ll_p :: nat where "ll_p = 1"

record linked_list =
  heap :: heap
  root :: nat
  timestamp :: int

definition LinkedList :: linked_list where
  "LinkedList = \<lparr> heap = [new_node ll_dt ll_pt ll_p], root = 0, timestamp = 0 \<rparr>"

definition now :: "linked_list \<Rightarrow> version \<times> linked_list" where
  "now s = (timestamp s, s\<lparr>timestamp := timestamp s + 1\<rparr>)"

definition set_root_value :: "slots \<Rightarrow> nat \<Rightarrow> val \<Rightarrow> linked_list \<Rightarrow> unit result \<times> linked_list" where
  "set_root_value slot fuel val s =
     (case now s of (at, s1) \<Rightarrow>
        (case write_node slot fuel (root s1) at ''value'' val (heap s1) of
           (r, h) \<Rightarrow> (r, s1\<lparr>heap := h\<rparr>)))"

text \<open>The \<open>while True\<close> loop of \<open>append\<close>: follow \<open>next_ptr\<close> to the last node.\<close>

fun find_last :: "nat \<Rightarrow> heap \<Rightarrow> version \<Rightarrow> val \<Rightarrow> val result" where
  "find_last 0 h at cursor = OutOfFuel"
| "find_last (Suc fuel) h at cursor =
     (case read_at h cursor ''next_ptr'' at of
        Ok next_node \<Rightarrow> (if next_node = VNone then Ok cursor else find_last fuel h at next_node)
      | Raise e \<Rightarrow> Raise e
      | OutOfFuel \<Rightarrow> OutOfFuel)"

text \<open>The body of \<open>append\<close> after \<open>at = self.now()\<close>.\<close>

definition append_at :: "slots \<Rightarrow> nat \<Rightarrow> version \<Rightarrow> val \<Rightarrow> linked_list \<Rightarrow> unit result \<times> linked_list" where
  "append_at slot fuel at val s =
     (case find_last fuel (heap s) at (VRef (root s)) of
        Raise e \<Rightarrow> (Raise e, s)
      | OutOfFuel \<Rightarrow> (OutOfFuel, s)
      | Ok cursor \<Rightarrow>
          (let new = VRef (length (heap s)) in
           case write_at slot fuel new at ''value'' val (heap s @ [new_node ll_dt ll_pt ll_p]) of
             (Ok u, h1) \<Rightarrow>
               (case set_back_at h1 new ''next_ptr'' cursor VNone of
                  Ok h2 \<Rightarrow>
                    (case write_at slot fuel cursor at ''next_ptr'' new h2 of
                       (r, h3) \<Rightarrow> (r, s\<lparr>heap := h3\<rparr>))
                | Raise e \<Rightarrow> (Raise e, s\<lparr>heap := h1\<rparr>)
                | OutOfFuel \<Rightarrow> (OutOfFuel, s\<lparr>heap := h1\<rparr>))
           | (r, h1) \<Rightarrow> (r, s\<lparr>heap := h1\<rparr>)))"

definition append :: "slots \<Rightarrow> nat \<Rightarrow> val \<Rightarrow> linked_list \<Rightarrow> unit result \<times> linked_list" where
  "append slot fuel val s = (case now s of (at, s1) \<Rightarrow> append_at slot fuel at val s1)"

text \<open>
  The loop \<open>for _ in range(i): cursor = cursor.read('next_ptr', at); if cursor is None: ...\<close>
  of the three indexed operations: \<open>Ok None\<close> when the traversal runs off the end,
  \<open>Ok (Some cursor)\<close> when all the hops are done.
\<close>

fun advance :: "heap \<Rightarrow> version \<Rightarrow> val \<Rightarrow> nat \<Rightarrow> val option result" where
  "advance h at cursor 0 = Ok (Some cursor)"
| "advance h at cursor (Suc k) =
     (case read_at h cursor ''next_ptr'' at of
        Ok cursor' \<Rightarrow> (if cursor' = VNone then Ok None else advance h at cursor' k)
      | Raise e \<Rightarrow> Raise e
      | OutOfFuel \<Rightarrow> OutOfFuel)"

definition modify_ith_node_val :: "slots \<Rightarrow> nat \<Rightarrow> int \<Rightarrow> val \<Rightarrow> linked_list \<Rightarrow> unit result \<times> linked_list" where
  "modify_ith_node_val slot fuel i val s =
     (if \<not> i \<ge> 0 then (Raise AssertionError, s)
      else case now s of (at, s1) \<Rightarrow>
        (case advance (heap s1) at (VRef (root s1)) (nat i) of
           Raise e \<Rightarrow> (Raise e, s1)
         | OutOfFuel \<Rightarrow> (OutOfFuel, s1)
         | Ok None \<Rightarrow> append slot fuel val s1
         | Ok (Some cursor) \<Rightarrow>
             (case write_at slot fuel cursor at ''value'' val (heap s1) of
                (r, h) \<Rightarrow> (r, s1\<lparr>heap := h\<rparr>))))"

definition insert_after_ith_node :: "slots \<Rightarrow> nat \<Rightarrow> int \<Rightarrow> val \<Rightarrow> linked_list \<Rightarrow> unit result \<times> linked_list" where
  "insert_after_ith_node slot fuel i val s =
     (case now s of (at, s1) \<Rightarrow>
        (case advance (heap s1) at (VRef (root s1)) (nat i) of
           Raise e \<Rightarrow> (Raise e, s1)
         | OutOfFuel \<Rightarrow> (OutOfFuel, s1)
         | Ok None \<Rightarrow> append slot fuel val s1
         | Ok (Some cursor) \<Rightarrow>
             (case read_at (heap s1) cursor ''next_ptr'' at of
                Raise e \<Rightarrow> (Raise e, s1)
              | OutOfFuel \<Rightarrow> (OutOfFuel, s1)
              | Ok next \<Rightarrow>
                  (let new = VRef (length (heap s1)) in
                   case write_at slot fuel new at ''value'' val (heap s1 @ [new_node ll_dt ll_pt ll_p]) of
                     (Ok u, h1) \<Rightarrow>
                       (case write_at slot fuel cursor at ''next_ptr'' new h1 of
                          (Ok u, h2) \<Rightarrow>
                            (case write_at slot fuel new at ''next_ptr'' next h2 of
                               (Ok u, h3) \<Rightarrow>
                                 (case set_back_at h3 next ''next_ptr'' new cursor of
                                    Ok h4 \<Rightarrow>
                                      (case set_back_at h4 new ''next_ptr'' cursor VNone of
                                         Ok h5 \<Rightarrow> (Ok (), s1\<lparr>heap := h5\<rparr>)
                                       | Raise e \<Rightarrow> (Raise e, s1\<lparr>heap := h4\<rparr>)
                                       | OutOfFuel \<Rightarrow> (OutOfFuel, s1\<lparr>heap := h4\<rparr>))
                                  | Raise e \<Rightarrow> (Raise e, s1\<lparr>heap := h3\<rparr>)
                                  | OutOfFuel \<Rightarrow> (OutOfFuel, s1\<lparr>heap := h3\<rparr>))
                             | (r, h3) \<Rightarrow> (r, s1\<lparr>heap := h3\<rparr>))
                        | (r, h2) \<Rightarrow> (r, s1\<lparr>heap := h2\<rparr>))
                   | (r, h1) \<Rightarrow> (r, s1\<lparr>heap := h1\<rparr>)))))"

definition delete_ith_node :: "slots \<Rightarrow> nat \<Rightarrow> int \<Rightarrow> linked_list \<Rightarrow> unit result \<times> linked_list" where
  "delete_ith_node slot fuel i s =
     (if \<not> i > 0 then (Raise AssertionError, s)
      else case now s of (at, s1) \<Rightarrow>
        (case advance (heap s1) at (VRef (root s1)) (nat (i - 1)) of
           Raise e \<Rightarrow> (Raise e, s1)
         | OutOfFuel \<Rightarrow> (OutOfFuel, s1)
         | Ok None \<Rightarrow> (Ok (), s1)
         | Ok (Some cursor) \<Rightarrow>
             (case read_at (heap s1) cursor ''next_ptr'' at of
                Raise e \<Rightarrow> (Raise e, s1)
              | OutOfFuel \<Rightarrow> (OutOfFuel, s1)
              | Ok next \<Rightarrow>
                  (case read_at (heap s1) next ''next_ptr'' at of
                     Raise e \<Rightarrow> (Raise e, s1)
                   | OutOfFuel \<Rightarrow> (OutOfFuel, s1)
                   | Ok next_next \<Rightarrow>
                       (case write_at slot fuel cursor at ''next_ptr'' next_next (heap s1) of
                          (Ok u, h1) \<Rightarrow>
                            (case set_back_at h1 next_next ''next_ptr'' cursor next of
                               Ok h2 \<Rightarrow> (Ok (), s1\<lparr>heap := h2\<rparr>)
                             | Raise e \<Rightarrow> (Raise e, s1\<lparr>heap := h1\<rparr>)
                             | OutOfFuel \<Rightarrow> (OutOfFuel, s1\<lparr>heap := h1\<rparr>))
                        | (r, h1) \<Rightarrow> (r, s1\<lparr>heap := h1\<rparr>))))))"

subsection \<open>Rendering\<close>

text \<open>Python's \<open>str\<close> of a value: decimal digits for an integer.\<close>

fun str_nat :: "nat \<Rightarrow> string" where
  "str_nat n = (if n < 10 then [''0123456789'' ! n] else str_nat (n div 10) @ [''0123456789'' ! (n mod 10)])"

definition str_int :: "int \<Rightarrow> string" where
  "str_int i = (if i < 0 then ''-'' @ str_nat (nat (- i)) else str_nat (nat i))"

text \<open>
  \<open>str\<close> of a node prints its memory address in Python; the model has no such
  address and prints the index in the heap. The \<open>value\<close> field holds a node only if a
  caller passes one as a value.
\<close>

fun py_str :: "val \<Rightarrow> string" where
  "py_str VNone = ''None''"
| "py_str (VInt i) = str_int i"
| "py_str (VRef a) = ''<node '' @ str_nat a @ ''>''"

text \<open>\<open>while cursor:\<close> tests the truth value of \<open>cursor\<close>.\<close>

fun truthy :: "val \<Rightarrow> bool" where
  "truthy VNone = False"
| "truthy (VInt i) = (i \<noteq> 0)"
| "truthy (VRef a) = True"

fun str_loop :: "nat \<Rightarrow> heap \<Rightarrow> version \<Rightarrow> val \<Rightarrow> string \<Rightarrow> string result" where
  "str_loop 0 h v cursor res = OutOfFuel"
| "str_loop (Suc fuel) h v cursor res =
     (if \<not> truthy cursor then Ok (res @ ''END'')
      else case read_at h cursor ''value'' v of
        Raise e \<Rightarrow> Raise e
      | OutOfFuel \<Rightarrow> OutOfFuel
      | Ok x \<Rightarrow>
          (case read_at h cursor ''next_ptr'' v of
             Raise e \<Rightarrow> Raise e
           | OutOfFuel \<Rightarrow> OutOfFuel
           | Ok cursor' \<Rightarrow> str_loop fuel h v cursor' (res @ py_str x @ ''->'')))"

text \<open>\<open>str_(v)\<close> and \<open>__str__()\<close>.\<close>

definition str_at :: "nat \<Rightarrow> linked_list \<Rightarrow> version \<Rightarrow> string result" where
  "str_at fuel s v = str_loop fuel (heap s) v (VRef (root s)) []"

definition str_current :: "nat \<Rightarrow> linked_list \<Rightarrow> string result" where
  "str_current fuel s = str_at fuel s (timestamp s)"

subsection \<open>The reading rule in the words of the specification\<close>

text \<open>
  The value of the most recent log entry for the tag with a version at most \<open>v\<close>, if
  there is one: the last such entry of the log.
\<close>

definition latest_entry :: "mod_entry list \<Rightarrow> tag \<Rightarrow> version \<Rightarrow> val option" where
  "latest_entry ms var v =
     (case filter (\<lambda>(mod_version, mod_field, mod_value). mod_field = var \<and> mod_version \<le> v) ms of
        [] \<Rightarrow> None
      | e # es \<Rightarrow> Some (snd (snd (last (e # es)))))"

subsection \<open>Concrete nodes and lists\<close>

text \<open>A node of the linked list with three log entries.\<close>

definition demo_node :: node where
  "demo_node = (new_node [''value''] [''next_ptr''] 1)
     \<lparr>mods := [(0, ''value'', VInt 1), (1, ''next_ptr'', VRef 1), (6, ''value'', VInt 20)]\<rparr>"

subsection \<open>Relations between the heap before and after\<close>

text \<open>
  A relation between heaps is closed at version \<open>t\<close> when it is reflexive and transitive
  and holds across each elementary change of the heap that an operation stamped \<open>t\<close>
  makes: appending a log entry of version \<open>t\<close> to a node whose log has room, allocating
  the node of a split, allocating a fresh list node, and updating a reverse set.
\<close>

definition closed_rel :: "version \<Rightarrow> (heap \<Rightarrow> heap \<Rightarrow> bool) \<Rightarrow> bool" where
  "closed_rel t R \<longleftrightarrow>
     (\<forall>h. R h h) \<and>
     (\<forall>h1 h2 h3. R h1 h2 \<longrightarrow> R h2 h3 \<longrightarrow> R h1 h3) \<and>
     (\<forall>h a var val. a < length h \<longrightarrow> length (mods (h ! a)) \<le> 2 * p (h ! a) \<longrightarrow>
        R h (h[a := (h ! a)\<lparr>mods := mods (h ! a) @ [(t, var, val)]\<rparr>])) \<and>
     (\<forall>h a var val nb. a < length h \<longrightarrow> 2 * p (h ! a) < length (mods (h ! a)) \<longrightarrow>
        copy_back (pt (h ! a)) (back_of (h ! a)) = Ok nb \<longrightarrow>
        R h (h @ [split_node (h ! a) var val nb])) \<and>
     (\<forall>h. R h (h @ [new_node ll_dt ll_pt ll_p])) \<and>
     (\<forall>h a ptr new old n'. a < length h \<longrightarrow> set_back (h ! a) ptr new old = Ok n' \<longrightarrow>
        R h (h[a := n']))"

subsection \<open>The public operations as a datatype\<close>

text \<open>
  The public methods of \<open>LinkedList\<close>, so that a state reached by any sequence of
  calls can be spoken of. \<open>Tick\<close> is a call of \<open>now()\<close> whose result is dropped.
\<close>

datatype operation =
    SetRootValue val
  | Append val
  | ModifyAt int val
  | InsertAfter int val
  | DeleteAt int
  | Tick

fun run_op :: "slots \<Rightarrow> nat \<Rightarrow> operation \<Rightarrow> linked_list \<Rightarrow> unit result \<times> linked_list" where
  "run_op slot fuel (SetRootValue val) s = set_root_value slot fuel val s"
| "run_op slot fuel (Append val) s = append slot fuel val s"
| "run_op slot fuel (ModifyAt i val) s = modify_ith_node_val slot fuel i val s"
| "run_op slot fuel (InsertAfter i val) s = insert_after_ith_node slot fuel i val s"
| "run_op slot fuel (DeleteAt i) s = delete_ith_node slot fuel i s"
| "run_op slot fuel Tick s = (Ok (), snd (now s))"


text \<open>
  The index of \<open>modify_ith_node_val\<close> or \<open>insert_after_ith_node\<close> is past the end of
  the list: the traversal meets \<open>None\<close> and the operation calls \<open>append\<close>.
\<close>

fun falls_back :: "operation \<Rightarrow> linked_list \<Rightarrow> bool" where
  "falls_back (ModifyAt i val) s =
     (i \<ge> 0 \<and> advance (heap s) (timestamp s) (VRef (root s)) (nat i) = Ok None)"
| "falls_back (InsertAfter i val) s =
     (advance (heap s) (timestamp s) (VRef (root s)) (nat i) = Ok None)"
| "falls_back opn s = False"

text \<open>The index fails the assertion at the head of the operation.\<close>

fun rejected :: "operation \<Rightarrow> bool" where
  "rejected (ModifyAt i val) = (\<not> i \<ge> 0)"
| "rejected (DeleteAt i) = (\<not> i > 0)"
| "rejected opn = False"

subsection \<open>Programs: sequences of calls\<close>

text \<open>
  A straight-line program calls the operations one after the other; an exception ends
  it, with the state as the failed call left it.
\<close>

fun run_ops :: "slots \<Rightarrow> nat \<Rightarrow> operation list \<Rightarrow> linked_list \<Rightarrow> unit result \<times> linked_list" where
  "run_ops slot fuel [] s = (Ok (), s)"
| "run_ops slot fuel (opn # opns) s =
     (case run_op slot fuel opn s of
        (Ok u, s') \<Rightarrow> run_ops slot fuel opns s'
      | (Raise e, s') \<Rightarrow> (Raise e, s')
      | (OutOfFuel, s') \<Rightarrow> (OutOfFuel, s'))"

text \<open>
  The \<open>__main__\<close> block of the source file: the calls up to each of its five
  checkpoints \<open>cp1\<close> .. \<open>cp5\<close> (each checkpoint is a call of \<open>now()\<close>).
\<close>

definition main_ops :: "operation list" where
  "main_ops =
     [SetRootValue (VInt 1), Append (VInt 2), Append (VInt 3), Append (VInt 4), Append (VInt 5), Tick,
      ModifyAt 2 (VInt 20), Tick,
      InsertAfter 2 (VInt 22), Tick,
      ModifyAt 1 (VInt 10), Tick,
      DeleteAt 2, Tick]"

definition main_upto :: "slots \<Rightarrow> nat \<Rightarrow> unit result \<times> linked_list" where
  "main_upto slot k = run_ops slot 10 (take k main_ops) LinkedList"


text \<open>Small programs used as concrete inputs below.\<close>

definition full_root_ops :: "operation list" where
  "full_root_ops = [SetRootValue (VInt 1), Append (VInt 2), ModifyAt 0 (VInt 5)]"

definition full_root :: "slots \<Rightarrow> linked_list" where
  "full_root slot = snd (run_ops slot 10 full_root_ops LinkedList)"

definition two_full_ops :: "operation list" where
  "two_full_ops =
     [SetRootValue (VInt 1), Append (VInt 2), Append (VInt 3), ModifyAt 0 (VInt 1), ModifyAt 1 (VInt 2)]"

definition two_full :: "slots \<Rightarrow> linked_list" where
  "two_full slot = snd (run_ops slot 10 two_full_ops LinkedList)"

definition seeded_thrice_ops :: "operation list" where
  "seeded_thrice_ops = [SetRootValue (VInt 1), ModifyAt 0 (VInt 2), ModifyAt 0 (VInt 3)]"

definition seeded_thrice :: "slots \<Rightarrow> linked_list" where
  "seeded_thrice slot = snd (run_ops slot 10 seeded_thrice_ops LinkedList)"

subsection \<open>Heaps that extend a heap\<close>

text \<open>
  \<open>node_ext P n n'\<close>: the node \<open>n'\<close> is the node \<open>n\<close> with log entries added at the end
  of its log, each of a version that satisfies \<open>P\<close>; nothing else but the reverse sets
  differs. \<open>heap_ext P h h'\<close>: every node of \<open>h\<close> is extended so in \<open>h'\<close>, at the same
  address, and the nodes that \<open>h'\<close> has more hold only log entries of such versions.
\<close>

definition node_ext :: "(version \<Rightarrow> bool) \<Rightarrow> node \<Rightarrow> node \<Rightarrow> bool" where
  "node_ext P n n' \<longleftrightarrow>
     p n' = p n \<and> dt n' = dt n \<and> pt n' = pt n \<and> fields_of n' = fields_of n \<and>
     take (length (mods n)) (mods n') = mods n \<and>
     list_all (\<lambda>e. P (fst e)) (drop (length (mods n)) (mods n'))"

definition heap_ext :: "(version \<Rightarrow> bool) \<Rightarrow> heap \<Rightarrow> heap \<Rightarrow> bool" where
  "heap_ext P h h' \<longleftrightarrow>
     length h \<le> length h' \<and>
     list_all (\<lambda>a. node_ext P (h ! a) (h' ! a)) [0..<length h] \<and>
     list_all (\<lambda>n. list_all (\<lambda>e. P (fst e)) (mods n)) (drop (length h) h')"

subsection \<open>The nodes of a linked list\<close>


subsection \<open>The value an operation carries\<close>

fun op_val :: "operation \<Rightarrow> val" where
  "op_val (SetRootValue val) = val"
| "op_val (Append val) = val"
| "op_val (ModifyAt i val) = val"
| "op_val (InsertAfter i val) = val"
| "op_val (DeleteAt i) = VNone"
| "op_val Tick = VNone"


subsection \<open>Full nodes\<close>

text \<open>
  \<open>full_kept h h'\<close>: every node of \<open>h\<close> whose log is full, that is, holds more than \<open>2p\<close>
  entries, has the same log in \<open>h'\<close>.
\<close>

definition full_kept :: "heap \<Rightarrow> heap \<Rightarrow> bool" where
  "full_kept h h' \<longleftrightarrow>
     length h \<le> length h' \<and>
     list_all (\<lambda>b. 2 * p (h ! b) < length (mods (h ! b)) \<longrightarrow>
                  mods (h' ! b) = mods (h ! b) \<and> p (h' ! b) = p (h ! b)) [0..<length h]"


subsection \<open>The operations over an engine\<close>

text \<open>
  To speak of the versions at which an operation calls the engine, the operations once
  more, with the two versioned methods of a node as parameters: \<open>rd\<close> for
  \<open>c.read(var, v)\<close> and \<open>wr\<close> for \<open>c.write(now, var, val)\<close>. Each definition is the one
  above with \<open>rd\<close> in place of \<open>read_at\<close> and \<open>wr\<close> in place of \<open>write_at slot fuel\<close>
  (\<open>run_op_with_engine\<close> below); an operation that behaves the same under every engine
  that agrees with the real one at a version \<open>t\<close> calls the real one at \<open>t\<close> only.
\<close>

type_synonym reader = "heap \<Rightarrow> val \<Rightarrow> tag \<Rightarrow> version \<Rightarrow> val result"

definition set_root_value_with :: "writer \<Rightarrow> val \<Rightarrow> linked_list \<Rightarrow> unit result \<times> linked_list" where
  "set_root_value_with wr val s =
     (case now s of (at, s1) \<Rightarrow>
        (case wr (VRef (root s1)) at ''value'' val (heap s1) of
           (r, h) \<Rightarrow> (r, s1\<lparr>heap := h\<rparr>)))"

fun find_last_with :: "reader \<Rightarrow> nat \<Rightarrow> heap \<Rightarrow> version \<Rightarrow> val \<Rightarrow> val result" where
  "find_last_with rd 0 h at cursor = OutOfFuel"
| "find_last_with rd (Suc fuel) h at cursor =
     (case rd h cursor ''next_ptr'' at of
        Ok next_node \<Rightarrow> (if next_node = VNone then Ok cursor else find_last_with rd fuel h at next_node)
      | Raise e \<Rightarrow> Raise e
      | OutOfFuel \<Rightarrow> OutOfFuel)"

definition append_at_with ::
  "reader \<Rightarrow> writer \<Rightarrow> nat \<Rightarrow> version \<Rightarrow> val \<Rightarrow> linked_list \<Rightarrow> unit result \<times> linked_list" where
  "append_at_with rd wr fuel at val s =
     (case find_last_with rd fuel (heap s) at (VRef (root s)) of
        Raise e \<Rightarrow> (Raise e, s)
      | OutOfFuel \<Rightarrow> (OutOfFuel, s)
      | Ok cursor \<Rightarrow>
          (let new = VRef (length (heap s)) in
           case wr new at ''value'' val (heap s @ [new_node ll_dt ll_pt ll_p]) of
             (Ok u, h1) \<Rightarrow>
               (case set_back_at h1 new ''next_ptr'' cursor VNone of
                  Ok h2 \<Rightarrow>
                    (case wr cursor at ''next_ptr'' new h2 of
                       (r, h3) \<Rightarrow> (r, s\<lparr>heap := h3\<rparr>))
                | Raise e \<Rightarrow> (Raise e, s\<lparr>heap := h1\<rparr>)
                | OutOfFuel \<Rightarrow> (OutOfFuel, s\<lparr>heap := h1\<rparr>))
           | (r, h1) \<Rightarrow> (r, s\<lparr>heap := h1\<rparr>)))"

definition append_with ::
  "reader \<Rightarrow> writer \<Rightarrow> nat \<Rightarrow> val \<Rightarrow> linked_list \<Rightarrow> unit result \<times> linked_list" where
  "append_with rd wr fuel val s = (case now s of (at, s1) \<Rightarrow> append_at_with rd wr fuel at val s1)"

fun advance_with :: "reader \<Rightarrow> heap \<Rightarrow> version \<Rightarrow> val \<Rightarrow> nat \<Rightarrow> val option result" where
  "advance_with rd h at cursor 0 = Ok (Some cursor)"
| "advance_with rd h at cursor (Suc k) =
     (case rd h cursor ''next_ptr'' at of
        Ok cursor' \<Rightarrow> (if cursor' = VNone then Ok None else advance_with rd h at cursor' k)
      | Raise e \<Rightarrow> Raise e
      | OutOfFuel \<Rightarrow> OutOfFuel)"

definition modify_ith_node_val_with ::
  "reader \<Rightarrow> writer \<Rightarrow> nat \<Rightarrow> int \<Rightarrow> val \<Rightarrow> linked_list \<Rightarrow> unit result \<times> linked_list" where
  "modify_ith_node_val_with rd wr fuel i val s =
     (if \<not> i \<ge> 0 then (Raise AssertionError, s)
      else case now s of (at, s1) \<Rightarrow>
        (case advance_with rd (heap s1) at (VRef (root s1)) (nat i) of
           Raise e \<Rightarrow> (Raise e, s1)
         | OutOfFuel \<Rightarrow> (OutOfFuel, s1)
         | Ok None \<Rightarrow> append_with rd wr fuel val s1
         | Ok (Some cursor) \<Rightarrow>
             (case wr cursor at ''value'' val (heap s1) of
                (r, h) \<Rightarrow> (r, s1\<lparr>heap := h\<rparr>))))"

definition insert_after_ith_node_with ::
  "reader \<Rightarrow> writer \<Rightarrow> nat \<Rightarrow> int \<Rightarrow> val \<Rightarrow> linked_list \<Rightarrow> unit result \<times> linked_list" where
  "insert_after_ith_node_with rd wr fuel i val s =
     (case now s of (at, s1) \<Rightarrow>
        (case advance_with rd (heap s1) at (VRef (root s1)) (nat i) of
           Raise e \<Rightarrow> (Raise e, s1)
         | OutOfFuel \<Rightarrow> (OutOfFuel, s1)
         | Ok None \<Rightarrow> append_with rd wr fuel val s1
         | Ok (Some cursor) \<Rightarrow>
             (case rd (heap s1) cursor ''next_ptr'' at of
                Raise e \<Rightarrow> (Raise e, s1)
              | OutOfFuel \<Rightarrow> (OutOfFuel, s1)
              | Ok next \<Rightarrow>
                  (let new = VRef (length (heap s1)) in
                   case wr new at ''value'' val (heap s1 @ [new_node ll_dt ll_pt ll_p]) of
                     (Ok u, h1) \<Rightarrow>
                       (case wr cursor at ''next_ptr'' new h1 of
                          (Ok u, h2) \<Rightarrow>
                            (case wr new at ''next_ptr'' next h2 of
                               (Ok u, h3) \<Rightarrow>
                                 (case set_back_at h3 next ''next_ptr'' new cursor of
                                    Ok h4 \<Rightarrow>
                                      (case set_back_at h4 new ''next_ptr'' cursor VNone of
                                         Ok h5 \<Rightarrow> (Ok (), s1\<lparr>heap := h5\<rparr>)
                                       | Raise e \<Rightarrow> (Raise e, s1\<lparr>heap := h4\<rparr>)
                                       | OutOfFuel \<Rightarrow> (OutOfFuel, s1\<lparr>heap := h4\<rparr>))
                                  | Raise e \<Rightarrow> (Raise e, s1\<lparr>heap := h3\<rparr>)
                                  | OutOfFuel \<Rightarrow> (OutOfFuel, s1\<lparr>heap := h3\<rparr>))
                             | (r, h3) \<Rightarrow> (r, s1\<lparr>heap := h3\<rparr>))
                        | (r, h2) \<Rightarrow> (r, s1\<lparr>heap := h2\<rparr>))
                   | (r, h1) \<Rightarrow> (r, s1\<lparr>heap := h1\<rparr>)))))"

definition delete_ith_node_with ::
  "reader \<Rightarrow> writer \<Rightarrow> int \<Rightarrow> linked_list \<Rightarrow> unit result \<times> linked_list" where
  "delete_ith_node_with rd wr i s =
     (if \<not> i > 0 then (Raise AssertionError, s)
      else case now s of (at, s1) \<Rightarrow>
        (case advance_with rd (heap s1) at (VRef (root s1)) (nat (i - 1)) of
           Raise e \<Rightarrow> (Raise e, s1)
         | OutOfFuel \<Rightarrow> (OutOfFuel, s1)
         | Ok None \<Rightarrow> (Ok (), s1)
         | Ok (Some cursor) \<Rightarrow>
             (case rd (heap s1) cursor ''next_ptr'' at of
                Raise e \<Rightarrow> (Raise e, s1)
              | OutOfFuel \<Rightarrow> (OutOfFuel, s1)
              | Ok next \<Rightarrow>
                  (case rd (heap s1) next ''next_ptr'' at of
                     Raise e \<Rightarrow> (Raise e, s1)
                   | OutOfFuel \<Rightarrow> (OutOfFuel, s1)
                   | Ok next_next \<Rightarrow>
                       (case wr cursor at ''next_ptr'' next_next (heap s1) of
                          (Ok u, h1) \<Rightarrow>
                            (case set_back_at h1 next_next ''next_ptr'' cursor next of
                               Ok h2 \<Rightarrow> (Ok (), s1\<lparr>heap := h2\<rparr>)
                             | Raise e \<Rightarrow> (Raise e, s1\<lparr>heap := h1\<rparr>)
                             | OutOfFuel \<Rightarrow> (OutOfFuel, s1\<lparr>heap := h1\<rparr>))
                        | (r, h1) \<Rightarrow> (r, s1\<lparr>heap := h1\<rparr>))))))"

fun run_op_with ::
  "reader \<Rightarrow> writer \<Rightarrow> nat \<Rightarrow> operation \<Rightarrow> linked_list \<Rightarrow> unit result \<times> linked_list" where
  "run_op_with rd wr fuel (SetRootValue val) s = set_root_value_with wr val s"
| "run_op_with rd wr fuel (Append val) s = append_with rd wr fuel val s"
| "run_op_with rd wr fuel (ModifyAt i val) s = modify_ith_node_val_with rd wr fuel i val s"
| "run_op_with rd wr fuel (InsertAfter i val) s = insert_after_ith_node_with rd wr fuel i val s"
| "run_op_with rd wr fuel (DeleteAt i) s = delete_ith_node_with rd wr i s"
| "run_op_with rd wr fuel Tick s = (Ok (), snd (now s))"

text \<open>
  An engine that answers as the real one at the version \<open>t\<close> and raises at every other.
\<close>

definition read_only_at :: "version \<Rightarrow> reader" where
  "read_only_at t h c var v = (if v = t then read_at h c var v else Raise KeyError)"

definition write_only_at :: "slots \<Rightarrow> nat \<Rightarrow> version \<Rightarrow> writer" where
  "write_only_at slot fuel t c v var val h =
     (if v = t then write_at slot fuel c v var val h else (Raise KeyError, h))"

subsection \<open>Two assignments of slots\<close>

text \<open>
  For the examples: \<open>slots_ahead\<close> puts an object at the slot of its address, so that a
  copy made during a loop lies ahead of the iterator and is visited; \<open>slots_behind\<close> puts
  all objects at slot 0, so that no object put into the set during a loop is visited.
\<close>

definition slots_ahead :: slots where
  "slots_ahead na ptr x = (case x of VRef a \<Rightarrow> a | _ \<Rightarrow> 0)"

definition slots_behind :: slots where
  "slots_behind na ptr x = 0"

section \<open>Reading a node\<close>

lemma latest_entry_Nil: "latest_entry [] var v = None"
  by (simp add: latest_entry_def)

lemma latest_entry_Cons:
  "latest_entry ((mv, mf, x) # ms) var v =
     (case latest_entry ms var v of
        Some y \<Rightarrow> Some y
      | None \<Rightarrow> if mf = var \<and> mv \<le> v then Some x else None)"
  by (auto simp: latest_entry_def split: list.splits)

lemma latest_entry_later:
  "\<forall>e\<in>set ms. v < fst e \<Longrightarrow> latest_entry ms var v = None"
  by (induction ms) (auto simp: latest_entry_Nil latest_entry_Cons)

lemma read_loop_sorted:
  "sorted (map fst ms) \<Longrightarrow>
   read_loop var v ms res = (case latest_entry ms var v of None \<Rightarrow> res | Some x \<Rightarrow> x)"
proof (induction ms arbitrary: res)
  case Nil
  show ?case by (simp add: latest_entry_Nil)
next
  case (Cons e ms)
  obtain mv mf x where e: "e = (mv, mf, x)" by (cases e)
  from Cons.prems have srt: "sorted (map fst ms)" and le: "\<forall>e'\<in>set ms. mv \<le> fst e'"
    by (auto simp: e)
  show ?case
  proof (cases "v < mv")
    case True
    with le have "\<forall>e'\<in>set ms. v < fst e'" by fastforce
    then have "latest_entry ms var v = None" by (rule latest_entry_later)
    with True show ?thesis by (simp add: e latest_entry_Cons)
  next
    case False
    then show ?thesis
      using Cons.IH [OF srt] by (simp add: e latest_entry_Cons split: option.splits)
  qed
qed

text \<open>
  C1. On a node whose log is sorted by version, \<open>read(var, v)\<close> of a declared tag returns
  the value of the most recent log entry for that tag with a version at most \<open>v\<close>, and
  the baseline \<open>fields[var]\<close> when there is no such entry.
\<close>

theorem read_most_recent:
  assumes "sorted (map fst (mods self))" and "var \<in> dom (fields_of self)"
  shows "read self var v =
     Ok (case latest_entry (mods self) var v of
           None \<Rightarrow> the (fields_of self var)
         | Some x \<Rightarrow> x)"
  using assms by (auto simp: read_def read_loop_sorted split: option.splits)

theorem read_most_recent_witness:
  "sorted (map fst (mods demo_node)) \<and> ''value'' \<in> dom (fields_of demo_node) \<and>
   read demo_node ''value'' 3 = Ok (VInt 1) \<and>
   read demo_node ''value'' 6 = Ok (VInt 20) \<and>
   read demo_node ''next_ptr'' 0 = Ok VNone"
proof -
  have s: "sorted (map fst (mods demo_node))" by (simp add: demo_node_def)
  have d1: "''value'' \<in> dom (fields_of demo_node)" by (simp add: demo_node_def new_node_def)
  have d2: "''next_ptr'' \<in> dom (fields_of demo_node)" by (simp add: demo_node_def new_node_def)
  show ?thesis
    using s d1 read_most_recent [OF s d1, of 3] read_most_recent [OF s d1, of 6]
      read_most_recent [OF s d2, of 0]
    by (simp add: demo_node_def new_node_def latest_entry_def)
qed

section \<open>Relations on heaps that every step of a write respects\<close>

lemma closed_rel_refl: "closed_rel t R \<Longrightarrow> R h h"
  by (simp add: closed_rel_def)

lemma closed_rel_trans:
  assumes "closed_rel t R" and "R h1 h2" and "R h2 h3"
  shows "R h1 h3"
proof -
  from assms(1) have "\<forall>h1 h2 h3. R h1 h2 \<longrightarrow> R h2 h3 \<longrightarrow> R h1 h3"
    by (simp add: closed_rel_def)
  with assms(2,3) show ?thesis by blast
qed

lemma closed_rel_log:
  assumes "closed_rel t R" and "a < length h" and "length (mods (h ! a)) \<le> 2 * p (h ! a)"
  shows "R h (h[a := (h ! a)\<lparr>mods := mods (h ! a) @ [(t, var, val)]\<rparr>])"
proof -
  from assms(1) have "\<forall>h a var val. a < length h \<longrightarrow> length (mods (h ! a)) \<le> 2 * p (h ! a) \<longrightarrow>
        R h (h[a := (h ! a)\<lparr>mods := mods (h ! a) @ [(t, var, val)]\<rparr>])"
    by (simp add: closed_rel_def)
  with assms(2,3) show ?thesis by blast
qed

lemma closed_rel_split:
  assumes "closed_rel t R" and "a < length h" and "2 * p (h ! a) < length (mods (h ! a))"
    and "copy_back (pt (h ! a)) (back_of (h ! a)) = Ok nb"
  shows "R h (h @ [split_node (h ! a) var val nb])"
proof -
  from assms(1) have "\<forall>h a var val nb. a < length h \<longrightarrow> 2 * p (h ! a) < length (mods (h ! a)) \<longrightarrow>
        copy_back (pt (h ! a)) (back_of (h ! a)) = Ok nb \<longrightarrow>
        R h (h @ [split_node (h ! a) var val nb])"
    by (simp add: closed_rel_def)
  with assms(2,3,4) show ?thesis by blast
qed

lemma closed_rel_new: "closed_rel t R \<Longrightarrow> R h (h @ [new_node ll_dt ll_pt ll_p])"
  by (simp add: closed_rel_def)

lemma closed_rel_set_back:
  assumes "closed_rel t R" and "a < length h" and "set_back (h ! a) ptr new old = Ok n'"
  shows "R h (h[a := n'])"
proof -
  from assms(1) have "\<forall>h a ptr new old n'. a < length h \<longrightarrow> set_back (h ! a) ptr new old = Ok n' \<longrightarrow>
        R h (h[a := n'])"
    by (simp add: closed_rel_def)
  with assms(2,3) show ?thesis by blast
qed

lemma node_of_Ok: "node_of h c = Ok (a, n) \<Longrightarrow> c = VRef a \<and> a < length h \<and> n = h ! a"
  by (auto simp: node_of_def lookup_def split: val.splits if_splits)

lemma set_back_at_rel:
  assumes "closed_rel t R" and "set_back_at h c ptr new old = Ok h'"
  shows "R h h'"
proof -
  from assms(2) obtain a n n' where n: "node_of h c = Ok (a, n)"
    and sb: "set_back n ptr new old = Ok n'" and h': "h' = h[a := n']"
    by (auto simp: set_back_at_def split: result.splits)
  from node_of_Ok [OF n] sb h' show ?thesis
    using closed_rel_set_back [OF assms(1)] by auto
qed

lemma fix_targets_rel:
  assumes "closed_rel t R"
  shows "fix_targets ptrs na a h = (r, h') \<Longrightarrow> R h h'"
proof (induction ptrs arbitrary: h)
  case Nil
  then show ?case using closed_rel_refl [OF assms] by simp
next
  case (Cons ptr ptrs)
  show ?case
  proof (cases "lookup h na")
    case (Ok new)
    show ?thesis
    proof (cases "fields_of new ptr")
      case None
      with Ok Cons.prems show ?thesis using closed_rel_refl [OF assms] by simp
    next
      case (Some tgt)
      show ?thesis
      proof (cases "set_back_at h tgt ptr (VRef na) (VRef a)")
        case (Ok h1)
        with \<open>lookup h na = Ok new\<close> Some Cons.prems
        have "fix_targets ptrs na a h1 = (r, h')" by simp
        then have "R h1 h'" by (rule Cons.IH)
        moreover have "R h h1" using set_back_at_rel [OF assms Ok] .
        ultimately show ?thesis by (rule closed_rel_trans [OF assms, rotated])
      next
        case (Raise e)
        with \<open>lookup h na = Ok new\<close> Some Cons.prems show ?thesis
          using closed_rel_refl [OF assms] by simp
      next
        case OutOfFuel
        with \<open>lookup h na = Ok new\<close> Some Cons.prems show ?thesis
          using closed_rel_refl [OF assms] by simp
      qed
    qed
  next
    case (Raise e)
    with Cons.prems show ?thesis using closed_rel_refl [OF assms] by simp
  next
    case OutOfFuel
    with Cons.prems show ?thesis using closed_rel_refl [OF assms] by simp
  qed
qed

lemma cascade_nodes_rel:
  assumes "closed_rel t R"
    and w: "\<And>c var val h r h'. w c t var val h = (r, h') \<Longrightarrow> R h h'"
  shows "cascade_nodes sl w k n passed t ptr na h = (r, h') \<Longrightarrow> R h h'"
proof (induction k arbitrary: passed h)
  case 0
  then show ?case using closed_rel_refl [OF assms(1)] by simp
next
  case (Suc k)
  note refl = closed_rel_refl [OF assms(1)]
  show ?case
  proof (cases "length (live_back h na ptr) \<noteq> n")
    case True
    with Suc.prems show ?thesis using refl by simp
  next
    case size: False
    show ?thesis
    proof (cases "sort_key sl (filter (\<lambda>x. x \<notin> set passed) (live_back h na ptr))")
      case Nil
      with size Suc.prems show ?thesis using refl by simp
    next
      case (Cons x rest)
      obtain r1 h1 where w1: "w x t ptr (VRef na) h = (r1, h1)"
        by (cases "w x t ptr (VRef na) h")
      have R1: "R h h1" using w [OF w1] .
      show ?thesis
      proof (cases r1)
        case (Ok u)
        with w1 Cons size Suc.prems
        have "cascade_nodes sl w k n
                (x # passed @ filter (\<lambda>y. y \<notin> set (live_back h na ptr) \<and> \<not> sl x < sl y)
                   (live_back h1 na ptr)) t ptr na h1 = (r, h')"
          by simp
        then have "R h1 h'" by (rule Suc.IH)
        with R1 show ?thesis by (rule closed_rel_trans [OF assms(1)])
      next
        case (Raise e)
        with w1 Cons size Suc.prems R1 show ?thesis by simp
      next
        case OutOfFuel
        with w1 Cons size Suc.prems R1 show ?thesis by simp
      qed
    qed
  qed
qed

lemma cascade_ptrs_rel:
  assumes "closed_rel t R"
    and w: "\<And>c var val h r h'. w c t var val h = (r, h') \<Longrightarrow> R h h'"
  shows "cascade_ptrs slot w k ptrs t na h = (r, h') \<Longrightarrow> R h h'"
proof (induction ptrs arbitrary: h)
  case Nil
  then show ?case using closed_rel_refl [OF assms(1)] by simp
next
  case (Cons ptr ptrs)
  show ?case
  proof (cases "lookup h na")
    case (Ok new)
    show ?thesis
    proof (cases "back_of new ptr")
      case None
      with Ok Cons.prems show ?thesis using closed_rel_refl [OF assms(1)] by simp
    next
      case (Some bs)
      obtain r1 h1 where c1: "cascade_nodes (slot na ptr) w k (length bs) [] t ptr na h = (r1, h1)"
        by (cases "cascade_nodes (slot na ptr) w k (length bs) [] t ptr na h")
      have R1: "R h h1" using cascade_nodes_rel [OF assms(1) w c1] .
      show ?thesis
      proof (cases r1)
        case (Ok u)
        with c1 Some \<open>lookup h na = Ok new\<close> Cons.prems
        have "cascade_ptrs slot w k ptrs t na h1 = (r, h')" by simp
        then have "R h1 h'" by (rule Cons.IH)
        with R1 show ?thesis by (rule closed_rel_trans [OF assms(1)])
      next
        case (Raise e)
        with c1 Some \<open>lookup h na = Ok new\<close> Cons.prems R1 show ?thesis by simp
      next
        case OutOfFuel
        with c1 Some \<open>lookup h na = Ok new\<close> Cons.prems R1 show ?thesis by simp
      qed
    qed
  next
    case (Raise e)
    with Cons.prems show ?thesis using closed_rel_refl [OF assms(1)] by simp
  next
    case OutOfFuel
    with Cons.prems show ?thesis using closed_rel_refl [OF assms(1)] by simp
  qed
qed

lemma method_write_rel:
  assumes "closed_rel t R"
    and w: "\<And>a var val h r h'. w a t var val h = (r, h') \<Longrightarrow> R h h'"
  shows "method_write w c t var val h = (r, h') \<Longrightarrow> R h h'"
  using closed_rel_refl [OF assms(1)] w
  by (auto simp: method_write_def split: val.splits)

lemma write_node_dangling:
  "\<not> a < length h \<Longrightarrow> write_node slot (Suc fuel) a t var val h = (Raise DanglingRef, h)"
  by (simp add: lookup_def)

lemma write_node_undeclared:
  "a < length h \<Longrightarrow> fields_of (h ! a) var = None \<Longrightarrow>
   write_node slot (Suc fuel) a t var val h = (Raise AssertionError, h)"
  by (simp add: lookup_def)

lemma write_node_log:
  "a < length h \<Longrightarrow> fields_of (h ! a) var = Some x \<Longrightarrow> length (mods (h ! a)) \<le> 2 * p (h ! a) \<Longrightarrow>
   write_node slot (Suc fuel) a t var val h =
     (Ok (), h[a := (h ! a)\<lparr>mods := mods (h ! a) @ [(t, var, val)]\<rparr>])"
  by (simp add: lookup_def)

lemma write_node_split:
  "a < length h \<Longrightarrow> fields_of (h ! a) var = Some x \<Longrightarrow> \<not> length (mods (h ! a)) \<le> 2 * p (h ! a) \<Longrightarrow>
   write_node slot (Suc fuel) a t var val h =
     (case copy_back (pt (h ! a)) (back_of (h ! a)) of
        Raise e \<Rightarrow> (Raise e, h)
      | OutOfFuel \<Rightarrow> (OutOfFuel, h)
      | Ok nb \<Rightarrow>
          (case fix_targets (pt (h ! a)) (length h) a (h @ [split_node (h ! a) var val nb]) of
             (Ok u, h') \<Rightarrow>
               cascade_ptrs slot (method_write (write_node slot fuel)) (Suc fuel)
                 (pt (h ! a)) t (length h) h'
           | (Raise e, h') \<Rightarrow> (Raise e, h')
           | (OutOfFuel, h') \<Rightarrow> (OutOfFuel, h')))"
  by (simp add: lookup_def)

lemma write_node_rel:
  assumes "closed_rel t R"
  shows "write_node slot fuel a t var val h = (r, h') \<Longrightarrow> R h h'"
proof (induction fuel arbitrary: a var val h r h')
  case 0
  then show ?case using closed_rel_refl [OF assms] by simp
next
  case (Suc fuel)
  note refl = closed_rel_refl [OF assms]
  show ?case
  proof (cases "a < length h")
    case False
    from Suc.prems [unfolded write_node_dangling [OF False]] show ?thesis using refl by simp
  next
    case a: True
    show ?thesis
    proof (cases "fields_of (h ! a) var")
      case None
      from Suc.prems [unfolded write_node_undeclared [OF a None]] show ?thesis using refl by simp
    next
      case decl: (Some x)
      show ?thesis
      proof (cases "length (mods (h ! a)) \<le> 2 * p (h ! a)")
        case True
        from Suc.prems [unfolded write_node_log [OF a decl True]]
        have "h' = h[a := (h ! a)\<lparr>mods := mods (h ! a) @ [(t, var, val)]\<rparr>]"
          by simp
        then show ?thesis using closed_rel_log [OF assms a True] by simp
      next
        case full: False
        note eq = Suc.prems [unfolded write_node_split [OF a decl full]]
        show ?thesis
        proof (cases "copy_back (pt (h ! a)) (back_of (h ! a))")
          case (Ok nb)
          let ?h1 = "h @ [split_node (h ! a) var val nb]"
          have R1: "R h ?h1" using closed_rel_split [OF assms a _ Ok] full by simp
          obtain r2 h2 where f: "fix_targets (pt (h ! a)) (length h) a ?h1 = (r2, h2)"
            by (cases "fix_targets (pt (h ! a)) (length h) a ?h1")
          have R2: "R ?h1 h2" using fix_targets_rel [OF assms f] .
          have R12: "R h h2" using closed_rel_trans [OF assms R1 R2] .
          show ?thesis
          proof (cases r2)
            case (Ok u)
            with eq \<open>copy_back (pt (h ! a)) (back_of (h ! a)) = Ok nb\<close> f
            have c: "cascade_ptrs slot (method_write (write_node slot fuel)) (Suc fuel)
                       (pt (h ! a)) t (length h) h2 = (r, h')"
              by simp
            have "R h2 h'"
              by (rule cascade_ptrs_rel [OF assms _ c]) (erule method_write_rel [OF assms Suc.IH, rotated])
            with R12 show ?thesis by (rule closed_rel_trans [OF assms])
          next
            case (Raise e)
            with eq \<open>copy_back (pt (h ! a)) (back_of (h ! a)) = Ok nb\<close> f R12
            show ?thesis by simp
          next
            case OutOfFuel
            with eq \<open>copy_back (pt (h ! a)) (back_of (h ! a)) = Ok nb\<close> f R12
            show ?thesis by simp
          qed
        next
          case (Raise e)
          with eq show ?thesis using refl by simp
        next
          case OutOfFuel
          with eq show ?thesis using refl by simp
        qed
      qed
    qed
  qed
qed

lemma write_at_rel:
  assumes "closed_rel t R"
  shows "write_at slot fuel c t var val h = (r, h') \<Longrightarrow> R h h'"
  unfolding write_at_def
  by (erule method_write_rel [OF assms write_node_rel [OF assms], rotated])

section \<open>The operations of the list respect closed relations\<close>

lemma set_root_value_rel:
  assumes cr: "closed_rel (timestamp s) R" and run: "set_root_value slot fuel val s = (r, s')"
  shows "R (heap s) (heap s') \<and> root s' = root s \<and> timestamp s' = timestamp s + 1"
  using run
  by (auto simp: set_root_value_def now_def split: prod.splits dest!: write_node_rel [OF cr])

lemma append_at_rel:
  assumes cr: "closed_rel t R" and run: "append_at slot fuel t val s = (r, s')"
  shows "R (heap s) (heap s') \<and> root s' = root s \<and> timestamp s' = timestamp s"
proof -
  note new = closed_rel_new [OF cr]
  note refl = closed_rel_refl [OF cr]
  from run show ?thesis
    by (auto simp: append_at_def Let_def refl split: result.splits prod.splits
          dest!: write_at_rel [OF cr] set_back_at_rel [OF cr])
       (meson new closed_rel_trans [OF cr])+
qed

lemma append_rel:
  assumes cr: "closed_rel (timestamp s) R" and run: "append slot fuel val s = (r, s')"
  shows "R (heap s) (heap s') \<and> root s' = root s \<and> timestamp s' = timestamp s + 1"
  using run append_at_rel [OF cr, of slot fuel val "s\<lparr>timestamp := timestamp s + 1\<rparr>" r s']
  by (simp add: append_def now_def)


lemma modify_ith_node_val_rel:
  assumes cr: "closed_rel (timestamp s) R"
    and cr1: "falls_back (ModifyAt i val) s \<Longrightarrow> closed_rel (timestamp s + 1) R"
    and run: "modify_ith_node_val slot fuel i val s = (r, s')"
  shows "R (heap s) (heap s') \<and> root s' = root s \<and>
     timestamp s' = timestamp s +
       (if rejected (ModifyAt i val) then 0 else if falls_back (ModifyAt i val) s then 2 else 1)"
proof (cases "i \<ge> 0")
  case False
  with run show ?thesis using closed_rel_refl [OF cr] by (simp add: modify_ith_node_val_def)
next
  case True
  let ?s1 = "s\<lparr>timestamp := timestamp s + 1\<rparr>"
  show ?thesis
  proof (cases "advance (heap s) (timestamp s) (VRef (root s)) (nat i) = Ok None")
    case fb: True
    with True run have app: "append slot fuel val ?s1 = (r, s')"
      by (simp add: modify_ith_node_val_def now_def)
    from cr1 fb True have cr': "closed_rel (timestamp ?s1) R" by simp
    from append_rel [OF cr' app] fb True show ?thesis by simp
  next
    case False
    with True run show ?thesis using closed_rel_refl [OF cr]
      by (auto simp: modify_ith_node_val_def now_def split: result.splits option.splits prod.splits
            dest!: write_at_rel [OF cr])
  qed
qed

lemma insert_after_ith_node_rel:
  assumes cr: "closed_rel (timestamp s) R"
    and cr1: "falls_back (InsertAfter i val) s \<Longrightarrow> closed_rel (timestamp s + 1) R"
    and run: "insert_after_ith_node slot fuel i val s = (r, s')"
  shows "R (heap s) (heap s') \<and> root s' = root s \<and>
     timestamp s' = timestamp s + (if falls_back (InsertAfter i val) s then 2 else 1)"
proof (cases "advance (heap s) (timestamp s) (VRef (root s)) (nat i) = Ok None")
  case fb: True
  let ?s1 = "s\<lparr>timestamp := timestamp s + 1\<rparr>"
  from fb run have app: "append slot fuel val ?s1 = (r, s')"
    by (simp add: insert_after_ith_node_def now_def)
  from cr1 fb have cr': "closed_rel (timestamp ?s1) R" by simp
  from append_rel [OF cr' app] fb show ?thesis by simp
next
  case False
  note new = closed_rel_new [OF cr]
  note refl = closed_rel_refl [OF cr]
  from False run show ?thesis
    by (auto simp: insert_after_ith_node_def now_def Let_def refl
          split: result.splits option.splits prod.splits
          dest!: write_at_rel [OF cr] set_back_at_rel [OF cr])
       (meson new closed_rel_trans [OF cr])+
qed

lemma delete_ith_node_rel:
  assumes cr: "closed_rel (timestamp s) R"
    and run: "delete_ith_node slot fuel i s = (r, s')"
  shows "R (heap s) (heap s') \<and> root s' = root s \<and>
     timestamp s' = timestamp s + (if rejected (DeleteAt i) then 0 else 1)"
proof -
  note refl = closed_rel_refl [OF cr]
  from run show ?thesis
    by (auto simp: delete_ith_node_def now_def Let_def refl
          split: result.splits option.splits prod.splits if_splits
          dest!: write_at_rel [OF cr] set_back_at_rel [OF cr])
       (meson closed_rel_trans [OF cr])+
qed

lemma run_op_rel:
  assumes cr: "closed_rel (timestamp s) R"
    and cr1: "falls_back opn s \<Longrightarrow> closed_rel (timestamp s + 1) R"
    and run: "run_op slot fuel opn s = (r, s')"
  shows "R (heap s) (heap s')"
proof (cases opn)
  case (SetRootValue val)
  with run set_root_value_rel [OF cr] show ?thesis by simp
next
  case (Append val)
  with run append_rel [OF cr] show ?thesis by simp
next
  case (ModifyAt i val)
  with run cr1 modify_ith_node_val_rel [OF cr, of i val slot fuel r s'] show ?thesis by auto
next
  case (InsertAfter i val)
  with run cr1 insert_after_ith_node_rel [OF cr, of i val slot fuel r s'] show ?thesis by auto
next
  case (DeleteAt i)
  with run delete_ith_node_rel [OF cr] show ?thesis by simp
next
  case Tick
  with run show ?thesis using closed_rel_refl [OF cr] by (auto simp: now_def)
qed

lemma run_op_clock:
  assumes run: "run_op slot fuel opn s = (r, s')"
  shows "root s' = root s \<and>
     timestamp s' = timestamp s +
       (if rejected opn then 0 else if falls_back opn s then 2 else 1)"
proof -
  have cr: "closed_rel t (\<lambda>h h'. True)" for t by (simp add: closed_rel_def)
  show ?thesis
  proof (cases opn)
    case (SetRootValue val)
    with run set_root_value_rel [OF cr] show ?thesis by simp
  next
    case (Append val)
    with run append_rel [OF cr] show ?thesis by simp
  next
    case (ModifyAt i val)
    with run modify_ith_node_val_rel [OF cr cr run [unfolded ModifyAt run_op.simps]] show ?thesis by simp
  next
    case (InsertAfter i val)
    with run insert_after_ith_node_rel [OF cr cr run [unfolded InsertAfter run_op.simps]] show ?thesis by simp
  next
    case (DeleteAt i)
    with run delete_ith_node_rel [OF cr] show ?thesis by simp
  next
    case Tick
    with run show ?thesis by (auto simp: now_def)
  qed
qed

section \<open>Closed relations\<close>

lemma closed_relI:
  assumes "\<And>h. R h h"
    and "\<And>h1 h2 h3. R h1 h2 \<Longrightarrow> R h2 h3 \<Longrightarrow> R h1 h3"
    and "\<And>h a var val. a < length h \<Longrightarrow> length (mods (h ! a)) \<le> 2 * p (h ! a) \<Longrightarrow>
        R h (h[a := (h ! a)\<lparr>mods := mods (h ! a) @ [(t, var, val)]\<rparr>])"
    and "\<And>h a var val nb. a < length h \<Longrightarrow> 2 * p (h ! a) < length (mods (h ! a)) \<Longrightarrow>
        copy_back (pt (h ! a)) (back_of (h ! a)) = Ok nb \<Longrightarrow>
        R h (h @ [split_node (h ! a) var val nb])"
    and "\<And>h. R h (h @ [new_node ll_dt ll_pt ll_p])"
    and "\<And>h a ptr new old n'. a < length h \<Longrightarrow> set_back (h ! a) ptr new old = Ok n' \<Longrightarrow>
        R h (h[a := n'])"
  shows "closed_rel t R"
  unfolding closed_rel_def
  apply (intro conjI allI impI)
       apply (rule assms(1))
      apply (erule assms(2), assumption)
     apply (erule assms(3), assumption)
    apply (erule assms(4), assumption, assumption)
   apply (rule assms(5))
  apply (erule assms(6), assumption)
  done

lemma set_back_Ok:
  "set_back n ptr new old = Ok n' \<Longrightarrow>
   p n' = p n \<and> dt n' = dt n \<and> pt n' = pt n \<and> fields_of n' = fields_of n \<and> mods n' = mods n \<and>
   (\<forall>q. back_of n q \<noteq> None \<longrightarrow> back_of n' q \<noteq> None)"
  by (auto simp: set_back_def split: if_splits option.splits)

lemma node_ext_iff:
  "node_ext P n n' \<longleftrightarrow>
     p n' = p n \<and> dt n' = dt n \<and> pt n' = pt n \<and> fields_of n' = fields_of n \<and>
     (\<exists>ext. mods n' = mods n @ ext \<and> (\<forall>e\<in>set ext. P (fst e)))"
proof -
  have "(take (length xs) ys = xs \<and> list_all Q (drop (length xs) ys)) \<longleftrightarrow>
        (\<exists>ext. ys = xs @ ext \<and> (\<forall>e\<in>set ext. Q e))" for xs ys :: "mod_entry list" and Q
  proof
    assume "take (length xs) ys = xs \<and> list_all Q (drop (length xs) ys)"
    then have "ys = xs @ drop (length xs) ys \<and> (\<forall>e\<in>set (drop (length xs) ys). Q e)"
      by (metis append_take_drop_id list_all_iff)
    then show "\<exists>ext. ys = xs @ ext \<and> (\<forall>e\<in>set ext. Q e)" by blast
  next
    assume "\<exists>ext. ys = xs @ ext \<and> (\<forall>e\<in>set ext. Q e)"
    then show "take (length xs) ys = xs \<and> list_all Q (drop (length xs) ys)"
      by (auto simp: list_all_iff)
  qed
  then show ?thesis unfolding node_ext_def by simp
qed

lemma node_ext_refl: "node_ext P n n"
  by (simp add: node_ext_iff)

lemma node_ext_trans: "node_ext P n1 n2 \<Longrightarrow> node_ext P n2 n3 \<Longrightarrow> node_ext P n1 n3"
  unfolding node_ext_iff by (elim conjE exE) (simp, fastforce)

lemma node_ext_all:
  "node_ext P n n' \<Longrightarrow> \<forall>e\<in>set (mods n). P (fst e) \<Longrightarrow> \<forall>e\<in>set (mods n'). P (fst e)"
  unfolding node_ext_iff by force

lemma heap_ext_iff:
  "heap_ext P h h' \<longleftrightarrow>
     length h \<le> length h' \<and>
     (\<forall>a<length h. node_ext P (h ! a) (h' ! a)) \<and>
     (\<forall>a. length h \<le> a \<and> a < length h' \<longrightarrow> (\<forall>e\<in>set (mods (h' ! a)). P (fst e)))"
proof -
  have "(\<forall>n\<in>set (drop (length h) h'). Q n) \<longleftrightarrow> (\<forall>a. length h \<le> a \<and> a < length h' \<longrightarrow> Q (h' ! a))"
    for Q :: "node \<Rightarrow> bool"
  proof
    assume L: "\<forall>n\<in>set (drop (length h) h'). Q n"
    show "\<forall>a. length h \<le> a \<and> a < length h' \<longrightarrow> Q (h' ! a)"
    proof (intro allI impI)
      fix a assume a: "length h \<le> a \<and> a < length h'"
      then have "h' ! a = drop (length h) h' ! (a - length h)" by simp
      moreover from a have "a - length h < length (drop (length h) h')" by auto
      ultimately have "h' ! a \<in> set (drop (length h) h')" by (metis nth_mem)
      with L show "Q (h' ! a)" by blast
    qed
  next
    assume R: "\<forall>a. length h \<le> a \<and> a < length h' \<longrightarrow> Q (h' ! a)"
    show "\<forall>n\<in>set (drop (length h) h'). Q n"
    proof
      fix n assume "n \<in> set (drop (length h) h')"
      then obtain i where i: "i < length (drop (length h) h')" and n: "n = drop (length h) h' ! i"
        by (metis in_set_conv_nth)
      then have "n = h' ! (length h + i)" and "length h + i < length h'" by auto
      with R show "Q n" by simp
    qed
  qed
  then show ?thesis unfolding heap_ext_def by (auto simp: list_all_iff)
qed

lemma heap_ext_refl: "heap_ext P h h"
  by (auto simp: heap_ext_iff node_ext_refl)

lemma heap_ext_trans:
  assumes "heap_ext P h1 h2" and "heap_ext P h2 h3"
  shows "heap_ext P h1 h3"
proof -
  from assms have len: "length h1 \<le> length h2" "length h2 \<le> length h3"
    by (simp_all add: heap_ext_iff)
  have old: "node_ext P (h1 ! a) (h3 ! a)" if "a < length h1" for a
  proof -
    from that len assms have "node_ext P (h1 ! a) (h2 ! a)" "node_ext P (h2 ! a) (h3 ! a)"
      by (simp_all add: heap_ext_iff)
    then show ?thesis by (rule node_ext_trans)
  qed
  have new: "\<forall>e\<in>set (mods (h3 ! a)). P (fst e)" if "length h1 \<le> a" "a < length h3" for a
  proof (cases "a < length h2")
    case True
    with that assms have "\<forall>e\<in>set (mods (h2 ! a)). P (fst e)" "node_ext P (h2 ! a) (h3 ! a)"
      by (simp_all add: heap_ext_iff)
    then show ?thesis using node_ext_all by blast
  next
    case False
    with that assms show ?thesis by (auto simp: heap_ext_iff not_less)
  qed
  from len old new show ?thesis by (auto simp: heap_ext_iff)
qed

lemma heap_ext_update:
  assumes "a < length h" and "node_ext P (h ! a) n'"
  shows "heap_ext P h (h[a := n'])"
  using assms by (auto simp: heap_ext_iff nth_list_update node_ext_refl)

lemma heap_ext_snoc:
  assumes "\<forall>e\<in>set (mods n). P (fst e)"
  shows "heap_ext P h (h @ [n])"
proof -
  have "a < Suc (length h) \<Longrightarrow> length h \<le> a \<Longrightarrow> a = length h" for a by simp
  with assms show ?thesis
    by (auto simp: heap_ext_iff nth_append node_ext_refl)
qed

lemma closed_rel_heap_ext:
  assumes "P t"
  shows "closed_rel t (heap_ext P)"
proof (rule closed_relI)
  show "heap_ext P h h" for h by (rule heap_ext_refl)
  show "heap_ext P h1 h2 \<Longrightarrow> heap_ext P h2 h3 \<Longrightarrow> heap_ext P h1 h3" for h1 h2 h3
    by (rule heap_ext_trans)
  show "heap_ext P h (h[a := (h ! a)\<lparr>mods := mods (h ! a) @ [(t, var, val)]\<rparr>])"
    if "a < length h" for h a var val
    using that assms by (intro heap_ext_update) (simp_all add: node_ext_iff)
  show "heap_ext P h (h @ [split_node (h ! a) var val nb])" for h a var val nb
    by (rule heap_ext_snoc) (simp add: split_node_def new_node_def)
  show "heap_ext P h (h @ [new_node ll_dt ll_pt ll_p])" for h
    by (rule heap_ext_snoc) (simp add: new_node_def)
  show "heap_ext P h (h[a := n'])"
    if "a < length h" "set_back (h ! a) ptr new old = Ok n'" for h a ptr new old n'
    using that(1) set_back_Ok [OF that(2)] by (intro heap_ext_update) (simp_all add: node_ext_iff)
qed


section \<open>Earlier versions are not disturbed\<close>

lemma read_loop_later:
  "\<forall>e\<in>set ext. v < fst e \<Longrightarrow> read_loop var v (ms @ ext) res = read_loop var v ms res"
proof (induction ms arbitrary: res)
  case Nil
  then show ?case by (cases ext) auto
next
  case (Cons e ms)
  then show ?case by (cases e) auto
qed

lemma node_ext_read:
  assumes "node_ext P n n'" and "\<And>x. P x \<Longrightarrow> v < x"
  shows "read n' var v = read n var v"
proof -
  from assms(1) obtain ext where f: "fields_of n' = fields_of n"
    and m: "mods n' = mods n @ ext" and e: "\<forall>e\<in>set ext. P (fst e)"
    unfolding node_ext_iff by blast
  from e assms(2) have "\<forall>e\<in>set ext. v < fst e" by blast
  then show ?thesis by (simp add: read_def f m read_loop_later split: option.splits)
qed

lemma heap_ext_read_at:
  assumes "heap_ext P h h'" and "\<And>x. P x \<Longrightarrow> v < x"
    and "read_at h c var v \<noteq> Raise DanglingRef"
  shows "read_at h' c var v = read_at h c var v"
proof (cases c)
  case (VRef a)
  with assms(3) have a: "a < length h"
    by (auto simp: read_at_def node_of_def lookup_def split: if_splits)
  with assms(1) have a': "a < length h'" and ne: "node_ext P (h ! a) (h' ! a)"
    by (auto simp: heap_ext_iff)
  from a a' VRef show ?thesis
    using node_ext_read [OF ne assms(2)]
    by (simp add: read_at_def node_of_def lookup_def)
qed (simp_all add: read_at_def node_of_def)

lemma heap_ext_str_loop:
  assumes "heap_ext P h h'" and "\<And>x. P x \<Longrightarrow> v < x"
  shows "str_loop fuel h v c res \<noteq> Raise DanglingRef \<Longrightarrow>
         str_loop fuel h' v c res = str_loop fuel h v c res"
proof (induction fuel arbitrary: c res)
  case 0
  show ?case by simp
next
  case (Suc fuel)
  show ?case
  proof (cases "truthy c")
    case False
    then show ?thesis by simp
  next
    case True
    from True Suc.prems have v1: "read_at h c ''value'' v \<noteq> Raise DanglingRef"
      by (auto split: result.splits)
    note e1 = heap_ext_read_at [OF assms v1]
    show ?thesis
    proof (cases "read_at h c ''value'' v")
      case (Ok x)
      with True Suc.prems have v2: "read_at h c ''next_ptr'' v \<noteq> Raise DanglingRef"
        by (auto split: result.splits)
      note e2 = heap_ext_read_at [OF assms v2]
      show ?thesis
      proof (cases "read_at h c ''next_ptr'' v")
        case n: (Ok c')
        with True Ok Suc.prems have "str_loop fuel h v c' (res @ py_str x @ ''->'') \<noteq> Raise DanglingRef"
          by simp
        from Suc.IH [OF this] True Ok n e1 e2 show ?thesis by simp
      next
        case (Raise e)
        with True Ok e1 e2 show ?thesis by simp
      next
        case OutOfFuel
        with True Ok e1 e2 show ?thesis by simp
      qed
    next
      case (Raise e)
      with True e1 show ?thesis by simp
    next
      case OutOfFuel
      with True e1 show ?thesis by simp
    qed
  qed
qed

lemma run_op_heap_ext:
  assumes "run_op slot fuel opn s = (r, s')"
  shows "heap_ext (\<lambda>x. timestamp s \<le> x) (heap s) (heap s')"
  by (rule run_op_rel [OF closed_rel_heap_ext closed_rel_heap_ext assms]) simp_all

text \<open>
  C4. An operation leaves every node that existed before it at its address, with its
  fields, and with its log kept as a prefix of the new log; so \<open>read(var, v)\<close> on such a
  node, for every tag and every version \<open>v\<close> issued before the operation took its stamp,
  returns after the operation what it returned before, whatever splits and cascaded
  writes the operation made and whether it returned or raised. Rendering the list at
  such a version gives the same string before and after.
\<close>

theorem history_preserved:
  assumes "run_op slot fuel opn s = (r, s')" and "a < length (heap s)" and "v < timestamp s"
  shows "a < length (heap s') \<and>
     fields_of (heap s' ! a) = fields_of (heap s ! a) \<and>
     take (length (mods (heap s ! a))) (mods (heap s' ! a)) = mods (heap s ! a) \<and>
     read (heap s' ! a) var v = read (heap s ! a) var v \<and>
     (str_at k s v \<noteq> Raise DanglingRef \<longrightarrow> str_at k s' v = str_at k s v)"
proof -
  note ext = run_op_heap_ext [OF assms(1)]
  have P: "timestamp s \<le> x \<Longrightarrow> v < x" for x using assms(3) by simp
  from ext assms(2) have a': "a < length (heap s')" and n: "node_ext (\<lambda>x. timestamp s \<le> x) (heap s ! a) (heap s' ! a)"
    by (auto simp: heap_ext_iff)
  from n have f: "fields_of (heap s' ! a) = fields_of (heap s ! a)"
    and t: "take (length (mods (heap s ! a))) (mods (heap s' ! a)) = mods (heap s ! a)"
    by (simp_all add: node_ext_def)
  have rd: "read (heap s' ! a) var v = read (heap s ! a) var v"
    using node_ext_read [OF n P] .
  have "root s' = root s" using run_op_clock [OF assms(1)] by simp
  then have st: "str_at k s v \<noteq> Raise DanglingRef \<longrightarrow> str_at k s' v = str_at k s v"
    using heap_ext_str_loop [OF ext P] by (simp add: str_at_def)
  from a' f t rd st show ?thesis by simp
qed

theorem history_preserved_witness:
  "\<forall>slot.
   2 < length (heap (snd (main_upto slot 8))) \<and> 7 < timestamp (snd (main_upto slot 8)) \<and>
   length (heap (snd (run_op slot 10 (InsertAfter 2 (VInt 22)) (snd (main_upto slot 8))))) = 7 \<and>
   read (heap (snd (run_op slot 10 (InsertAfter 2 (VInt 22)) (snd (main_upto slot 8)))) ! 2) ''next_ptr'' 7 =
     read (heap (snd (main_upto slot 8)) ! 2) ''next_ptr'' 7 \<and>
   str_at 10 (snd (run_op slot 10 (InsertAfter 2 (VInt 22)) (snd (main_upto slot 8)))) 7 =
     Ok ''1->2->20->4->5->END''"
proof
  fix slot :: slots
  show "2 < length (heap (snd (main_upto slot 8))) \<and> 7 < timestamp (snd (main_upto slot 8)) \<and>
   length (heap (snd (run_op slot 10 (InsertAfter 2 (VInt 22)) (snd (main_upto slot 8))))) = 7 \<and>
   read (heap (snd (run_op slot 10 (InsertAfter 2 (VInt 22)) (snd (main_upto slot 8)))) ! 2) ''next_ptr'' 7 =
     read (heap (snd (main_upto slot 8)) ! 2) ''next_ptr'' 7 \<and>
   str_at 10 (snd (run_op slot 10 (InsertAfter 2 (VInt 22)) (snd (main_upto slot 8)))) 7 =
     Ok ''1->2->20->4->5->END''"
  proof -
    let ?s = "snd (main_upto slot 8)"
    let ?r = "run_op slot 10 (InsertAfter 2 (VInt 22)) ?s"
    have a: "2 < length (heap ?s)" by code_simp
    have v: "7 < timestamp ?s" by code_simp
    have l: "length (heap (snd ?r)) = 7" by code_simp
    have st: "str_at 10 ?s 7 = Ok ''1->2->20->4->5->END''" by code_simp
    have run: "?r = (fst ?r, snd ?r)" by simp
    from history_preserved [OF run a v, of "''next_ptr''" 10] st a v l show ?thesis by simp
  qed
qed

section \<open>An invariant of the reachable states\<close>









lemma run_op_rejected: "rejected opn \<Longrightarrow> run_op slot fuel opn s = (Raise AssertionError, s)"
  by (cases opn) (simp_all add: modify_ith_node_val_def delete_ith_node_def)





section \<open>Rendering the current version\<close>






section \<open>The stamp of an operation\<close>

lemma find_last_with_eq:
  assumes "\<forall>h c g. rd h c g t = read_at h c g t"
  shows "find_last_with rd fuel h t c = find_last fuel h t c"
  by (induction fuel arbitrary: c) (simp_all add: assms split: result.splits)

lemma advance_with_eq:
  assumes "\<forall>h c g. rd h c g t = read_at h c g t"
  shows "advance_with rd h t c k = advance h t c k"
  by (induction k arbitrary: c) (simp_all add: assms split: result.splits)

lemma append_at_with_eq:
  assumes rd: "\<forall>h c g. rd h c g t = read_at h c g t"
    and wr: "\<forall>c g x h. wr c t g x h = write_at slot fuel c t g x h"
  shows "append_at_with rd wr fuel t val s = append_at slot fuel t val s"
  by (simp add: append_at_with_def append_at_def Let_def
        find_last_with_eq [where rd=rd and t=t, OF rd] wr cong: result.case_cong prod.case_cong option.case_cong)

lemma append_with_eq:
  assumes rd: "\<forall>h c g. rd h c g (timestamp s) = read_at h c g (timestamp s)"
    and wr: "\<forall>c g x h. wr c (timestamp s) g x h = write_at slot fuel c (timestamp s) g x h"
  shows "append_with rd wr fuel val s = append slot fuel val s"
  by (simp add: append_with_def append_def now_def
        append_at_with_eq [where rd=rd and wr=wr and t="timestamp s", OF rd wr])

lemma run_op_with_stamp:
  assumes rd: "\<forall>h c g. rd h c g (timestamp s) = read_at h c g (timestamp s)"
    and wr: "\<forall>c g x h. wr c (timestamp s) g x h = write_at slot fuel c (timestamp s) g x h"
    and nf: "\<not> falls_back opn s"
  shows "run_op_with rd wr fuel opn s = run_op slot fuel opn s"
proof (cases opn)
  case (SetRootValue val)
  then show ?thesis
    by (simp add: set_root_value_with_def set_root_value_def now_def wr write_at_def method_write_def)
next
  case (Append val)
  then show ?thesis by (simp add: append_with_eq [where rd=rd and wr=wr and s=s, OF rd wr])
next
  case (ModifyAt i val)
  with nf have "i \<ge> 0 \<Longrightarrow> advance (heap s) (timestamp s) (VRef (root s)) (nat i) \<noteq> Ok None" by simp
  with ModifyAt show ?thesis
    by (auto simp: modify_ith_node_val_with_def modify_ith_node_val_def now_def
          advance_with_eq [where rd=rd and t="timestamp s", OF rd] wr
          split: result.splits option.splits cong: result.case_cong prod.case_cong option.case_cong)
next
  case (InsertAfter i val)
  with nf have "advance (heap s) (timestamp s) (VRef (root s)) (nat i) \<noteq> Ok None" by simp
  with InsertAfter show ?thesis
    by (auto simp: insert_after_ith_node_with_def insert_after_ith_node_def now_def Let_def
          advance_with_eq [where rd=rd and t="timestamp s", OF rd] rd wr
          split: result.splits option.splits cong: result.case_cong prod.case_cong option.case_cong)
next
  case (DeleteAt i)
  then show ?thesis
    by (simp add: delete_ith_node_with_def delete_ith_node_def now_def
          advance_with_eq [where rd=rd and t="timestamp s", OF rd] rd wr cong: result.case_cong prod.case_cong option.case_cong)
next
  case Tick
  then show ?thesis by simp
qed

lemma run_op_with_fallback:
  assumes rd: "\<forall>h c g. rd h c g (timestamp s) = read_at h c g (timestamp s)"
    and rd1: "\<forall>h c g. rd h c g (timestamp s + 1) = read_at h c g (timestamp s + 1)"
    and wr1: "\<forall>c g x h. wr c (timestamp s + 1) g x h = write_at slot fuel c (timestamp s + 1) g x h"
    and fb: "falls_back opn s"
  shows "run_op_with rd wr fuel opn s = run_op slot fuel opn s"
proof -
  let ?s1 = "s\<lparr>timestamp := timestamp s + 1\<rparr>"
  have ap: "append_with rd wr fuel val ?s1 = append slot fuel val ?s1" for val
    by (rule append_with_eq) (simp_all add: rd1 wr1)
  from fb show ?thesis
    by (cases opn)
       (simp_all add: modify_ith_node_val_with_def modify_ith_node_val_def
          insert_after_ith_node_with_def insert_after_ith_node_def now_def
          advance_with_eq [where rd=rd and t="timestamp s", OF rd] ap)
qed

lemma run_op_with_engine:
  "run_op_with read_at (write_at slot fuel) fuel opn s = run_op slot fuel opn s"
proof (cases "falls_back opn s")
  case True
  show ?thesis by (rule run_op_with_fallback [OF _ _ _ True]) simp_all
next
  case False
  show ?thesis by (rule run_op_with_stamp [OF _ _ False]) simp_all
qed

lemma run_op_falls_back:
  "falls_back opn s \<Longrightarrow> run_op slot fuel opn s = append slot fuel (op_val opn) (snd (now s))"
  by (cases opn) (simp_all add: modify_ith_node_val_def insert_after_ith_node_def now_def)

lemma falls_back_not_rejected: "falls_back opn s \<Longrightarrow> \<not> rejected opn"
  by (cases opn) simp_all

text \<open>
  C7, as the code has it. An operation whose index passes its assertion and is within
  the list takes one stamp \<open>t\<close>: the clock goes from \<open>t\<close> to \<open>t + 1\<close>; every log entry the
  operation adds, to a node that existed or to one it created, carries \<open>t\<close>; and the
  operation calls \<open>read\<close> and \<open>write\<close> at the version \<open>t\<close> only: under every engine that
  agrees with the real one at \<open>t\<close>, whatever it does at the other versions, the operation
  has the same outcome. When the traversal of \<open>modify_ith_node_val\<close> or
  \<open>insert_after_ith_node\<close> runs off the end, the operation is \<open>now()\<close> followed by the
  public \<open>append\<close>, which takes a stamp of its own: the clock goes from \<open>t\<close> to \<open>t + 2\<close>,
  the entries carry \<open>t + 1\<close>, the reads are at \<open>t\<close> and \<open>t + 1\<close> and the writes at
  \<open>t + 1\<close>. An index that fails the assertion leaves the clock and the list as they were.
\<close>

theorem op_stamp:
  assumes "run_op slot fuel opn s = (r, s')"
  shows "(rejected opn \<longrightarrow> r = Raise AssertionError \<and> s' = s) \<and>
     (\<not> rejected opn \<and> \<not> falls_back opn s \<longrightarrow>
        timestamp s' = timestamp s + 1 \<and>
        heap_ext (\<lambda>x. x = timestamp s) (heap s) (heap s') \<and>
        (\<forall>rd wr.
           (\<forall>h c g. rd h c g (timestamp s) = read_at h c g (timestamp s)) \<and>
           (\<forall>c g x h. wr c (timestamp s) g x h = write_at slot fuel c (timestamp s) g x h) \<longrightarrow>
           run_op_with rd wr fuel opn s = (r, s'))) \<and>
     (falls_back opn s \<longrightarrow>
        (r, s') = append slot fuel (op_val opn) (snd (now s)) \<and>
        timestamp s' = timestamp s + 2 \<and>
        heap_ext (\<lambda>x. x = timestamp s + 1) (heap s) (heap s') \<and>
        (\<forall>rd wr.
           (\<forall>h c g. rd h c g (timestamp s) = read_at h c g (timestamp s)) \<and>
           (\<forall>h c g. rd h c g (timestamp s + 1) = read_at h c g (timestamp s + 1)) \<and>
           (\<forall>c g x h. wr c (timestamp s + 1) g x h = write_at slot fuel c (timestamp s + 1) g x h) \<longrightarrow>
           run_op_with rd wr fuel opn s = (r, s')))"
proof (intro conjI impI allI)
  assume "rejected opn"
  from assms [unfolded run_op_rejected [OF this]] show "r = Raise AssertionError" and "s' = s"
    by simp_all
next
  assume nf: "\<not> rejected opn \<and> \<not> falls_back opn s"
  with run_op_clock [OF assms] show "timestamp s' = timestamp s + 1" by simp
  from nf show "heap_ext (\<lambda>x. x = timestamp s) (heap s) (heap s')"
    by (intro run_op_rel [OF closed_rel_heap_ext _ assms]) simp_all
next
  fix rd :: reader and wr :: writer
  assume nf: "\<not> rejected opn \<and> \<not> falls_back opn s"
    and ag: "(\<forall>h c g. rd h c g (timestamp s) = read_at h c g (timestamp s)) \<and>
           (\<forall>c g x h. wr c (timestamp s) g x h = write_at slot fuel c (timestamp s) g x h)"
  from ag have a1: "\<forall>h c g. rd h c g (timestamp s) = read_at h c g (timestamp s)"
    and a2: "\<forall>c g x h. wr c (timestamp s) g x h = write_at slot fuel c (timestamp s) g x h"
    by simp_all
  from nf have nf': "\<not> falls_back opn s" by simp
  show "run_op_with rd wr fuel opn s = (r, s')"
    using run_op_with_stamp [where rd=rd and wr=wr and s=s and slot=slot and fuel=fuel, OF a1 a2 nf']
      assms by simp
next
  assume fb: "falls_back opn s"
  from assms run_op_falls_back [OF fb] show "(r, s') = append slot fuel (op_val opn) (snd (now s))"
    by simp
  from fb falls_back_not_rejected [OF fb] run_op_clock [OF assms]
  show "timestamp s' = timestamp s + 2" by simp
  from assms run_op_falls_back [OF fb]
  have "append slot fuel (op_val opn) (s\<lparr>timestamp := timestamp s + 1\<rparr>) = (r, s')"
    by (simp add: now_def)
  from append_rel [OF closed_rel_heap_ext this, of "\<lambda>x. x = timestamp s + 1"]
  show "heap_ext (\<lambda>x. x = timestamp s + 1) (heap s) (heap s')" by simp
next
  fix rd :: reader and wr :: writer
  assume fb: "falls_back opn s"
    and ag: "(\<forall>h c g. rd h c g (timestamp s) = read_at h c g (timestamp s)) \<and>
           (\<forall>h c g. rd h c g (timestamp s + 1) = read_at h c g (timestamp s + 1)) \<and>
           (\<forall>c g x h. wr c (timestamp s + 1) g x h = write_at slot fuel c (timestamp s + 1) g x h)"
  from ag have a1: "\<forall>h c g. rd h c g (timestamp s) = read_at h c g (timestamp s)"
    and a2: "\<forall>h c g. rd h c g (timestamp s + 1) = read_at h c g (timestamp s + 1)"
    and a3: "\<forall>c g x h. wr c (timestamp s + 1) g x h = write_at slot fuel c (timestamp s + 1) g x h"
    by simp_all
  show "run_op_with rd wr fuel opn s = (r, s')"
    using run_op_with_fallback [where rd=rd and wr=wr and s=s and slot=slot and fuel=fuel, OF a1 a2 a3 fb]
      assms by simp
qed


theorem op_stamp_witness:
  "\<forall>slot.
   \<not> rejected (InsertAfter 2 (VInt 22)) \<and>
   \<not> falls_back (InsertAfter 2 (VInt 22)) (snd (main_upto slot 8)) \<and>
   timestamp (snd (main_upto slot 8)) = 8 \<and>
   timestamp (snd (run_op slot 10 (InsertAfter 2 (VInt 22)) (snd (main_upto slot 8)))) = 9 \<and>
   heap_ext (\<lambda>x. x = 8) (heap (snd (main_upto slot 8)))
     (heap (snd (run_op slot 10 (InsertAfter 2 (VInt 22)) (snd (main_upto slot 8))))) \<and>
   run_op_with (read_only_at 8) (write_only_at slot 10 8) 10 (InsertAfter 2 (VInt 22)) (snd (main_upto slot 8)) =
     run_op slot 10 (InsertAfter 2 (VInt 22)) (snd (main_upto slot 8)) \<and>
   falls_back (ModifyAt 3 (VInt 7)) LinkedList \<and>
   timestamp (snd (run_op slot 10 (ModifyAt 3 (VInt 7)) LinkedList)) = timestamp LinkedList + 2 \<and>
   rejected (DeleteAt 0) \<and> run_op slot 10 (DeleteAt 0) LinkedList = (Raise AssertionError, LinkedList)"
proof
  fix slot :: slots
  let ?s = "snd (main_upto slot 8)"
  let ?r = "run_op slot 10 (InsertAfter 2 (VInt 22)) ?s"
  let ?q = "run_op slot 10 (ModifyAt 3 (VInt 7)) LinkedList"
  let ?d = "run_op slot 10 (DeleteAt 0) LinkedList"
  have nr: "\<not> rejected (InsertAfter 2 (VInt 22))" by simp
  have nf: "\<not> falls_back (InsertAfter 2 (VInt 22)) ?s" by code_simp
  have t: "timestamp ?s = 8" by code_simp
  have fb: "falls_back (ModifyAt 3 (VInt 7)) LinkedList" by code_simp
  have rj: "rejected (DeleteAt 0)" by simp
  have r: "?r = (fst ?r, snd ?r)" and q: "?q = (fst ?q, snd ?q)" and d: "?d = (fst ?d, snd ?d)"
    by simp_all
  from op_stamp [OF r] nr nf
  have A: "timestamp (snd ?r) = timestamp ?s + 1 \<and>
           heap_ext (\<lambda>x. x = timestamp ?s) (heap ?s) (heap (snd ?r))"
    and E: "\<forall>rd wr.
           (\<forall>h c g. rd h c g (timestamp ?s) = read_at h c g (timestamp ?s)) \<and>
           (\<forall>c g x h. wr c (timestamp ?s) g x h = write_at slot 10 c (timestamp ?s) g x h) \<longrightarrow>
           run_op_with rd wr 10 (InsertAfter 2 (VInt 22)) ?s = (fst ?r, snd ?r)"
    by blast+
  have "(\<forall>h c g. read_only_at 8 h c g (timestamp ?s) = read_at h c g (timestamp ?s)) \<and>
        (\<forall>c g x h. write_only_at slot 10 8 c (timestamp ?s) g x h = write_at slot 10 c (timestamp ?s) g x h)"
    by (simp add: t read_only_at_def write_only_at_def)
  with E have E': "run_op_with (read_only_at 8) (write_only_at slot 10 8) 10 (InsertAfter 2 (VInt 22)) ?s = ?r"
    unfolding r [symmetric] by blast
  from op_stamp [OF q] fb have B: "timestamp (snd ?q) = timestamp LinkedList + 2" by blast
  from op_stamp [OF d] rj have "fst ?d = Raise AssertionError \<and> snd ?d = LinkedList" by blast
  then have C: "?d = (Raise AssertionError, LinkedList)" by (simp add: prod_eq_iff)
  from A [unfolded t] B C E' nr nf t fb rj
  show "\<not> rejected (InsertAfter 2 (VInt 22)) \<and>
   \<not> falls_back (InsertAfter 2 (VInt 22)) (snd (main_upto slot 8)) \<and>
   timestamp (snd (main_upto slot 8)) = 8 \<and>
   timestamp (snd (run_op slot 10 (InsertAfter 2 (VInt 22)) (snd (main_upto slot 8)))) = 9 \<and>
   heap_ext (\<lambda>x. x = 8) (heap (snd (main_upto slot 8)))
     (heap (snd (run_op slot 10 (InsertAfter 2 (VInt 22)) (snd (main_upto slot 8))))) \<and>
   run_op_with (read_only_at 8) (write_only_at slot 10 8) 10 (InsertAfter 2 (VInt 22)) (snd (main_upto slot 8)) =
     run_op slot 10 (InsertAfter 2 (VInt 22)) (snd (main_upto slot 8)) \<and>
   falls_back (ModifyAt 3 (VInt 7)) LinkedList \<and>
   timestamp (snd (run_op slot 10 (ModifyAt 3 (VInt 7)) LinkedList)) = timestamp LinkedList + 2 \<and>
   rejected (DeleteAt 0) \<and> run_op slot 10 (DeleteAt 0) LinkedList = (Raise AssertionError, LinkedList)"
    by simp
qed

text \<open>
  C7 fails on the code: on a fresh list \<open>modify_ith_node_val(3, 7)\<close> runs off the end
  and calls \<open>append\<close>; the clock goes from 0 to 2, the two entries written carry the
  second stamp, 1, and under an engine that answers at the first stamp only, 0, the
  operation fails: it calls the engine at another version.
\<close>

theorem fallback_second_stamp_counterexample:
  "\<forall>slot.
   timestamp LinkedList = 0 \<and>
   fst (run_op slot 10 (ModifyAt 3 (VInt 7)) LinkedList) = Ok () \<and>
   timestamp (snd (run_op slot 10 (ModifyAt 3 (VInt 7)) LinkedList)) = 2 \<and>
   map mods (heap (snd (run_op slot 10 (ModifyAt 3 (VInt 7)) LinkedList))) =
     [[(1, ''next_ptr'', VRef 1)], [(1, ''value'', VInt 7)]] \<and>
   fst (run_op_with (read_only_at 0) (write_only_at slot 10 0) 10 (ModifyAt 3 (VInt 7)) LinkedList) =
     Raise KeyError"
  by (rule allI) code_simp

section \<open>Writes to a full node\<close>

lemma read_loop_snoc:
  "\<forall>e\<in>set ms. fst e \<le> v \<Longrightarrow> t \<le> v \<Longrightarrow> read_loop var v (ms @ [(t, var, x)]) res = x"
  by (induction ms arbitrary: res) auto

lemma closed_rel_full_kept: "closed_rel t full_kept"
proof (rule closed_relI)
  show "full_kept h h" for h by (simp add: full_kept_def list_all_iff)
  show "full_kept h1 h2 \<Longrightarrow> full_kept h2 h3 \<Longrightarrow> full_kept h1 h3" for h1 h2 h3
    by (auto simp: full_kept_def list_all_iff)
  show "full_kept h (h[a := (h ! a)\<lparr>mods := mods (h ! a) @ [(t, var, val)]\<rparr>])"
    if "a < length h" "length (mods (h ! a)) \<le> 2 * p (h ! a)" for h a var val
    using that by (auto simp: full_kept_def list_all_iff nth_list_update)
  have snoc: "full_kept h (h @ [n])" for h n
    by (auto simp: full_kept_def list_all_iff nth_append)
  show "full_kept h (h @ [split_node (h ! a) var val nb])" for h a var val nb by (rule snoc)
  show "full_kept h (h @ [new_node ll_dt ll_pt ll_p])" for h by (rule snoc)
  show "full_kept h (h[a := n'])"
    if "a < length h" "set_back (h ! a) ptr new old = Ok n'" for h a ptr new old n'
    using that(1) set_back_Ok [OF that(2)] by (auto simp: full_kept_def list_all_iff nth_list_update)
qed

lemma write_node_full_kept:
  assumes "a < length h" and "2 * p (h ! a) < length (mods (h ! a))"
    and "write_node slot fuel a t var val h = (r, h')"
  shows "a < length h' \<and> mods (h' ! a) = mods (h ! a) \<and> fields_of (h' ! a) = fields_of (h ! a)"
proof -
  from write_node_rel [OF closed_rel_full_kept assms(3)] assms(1,2)
  have "a < length h'" and "mods (h' ! a) = mods (h ! a)"
    by (auto simp: full_kept_def list_all_iff)
  moreover from write_node_rel [OF closed_rel_heap_ext assms(3), of "\<lambda>x. x = t"] assms(1)
  have "fields_of (h' ! a) = fields_of (h ! a)"
    by (auto simp: heap_ext_iff node_ext_def)
  ultimately show ?thesis by simp
qed







text \<open>The steps of a write to a full node, once the reverse sets are copied.\<close>

lemma write_node_split_steps:
  assumes a: "a < length h" and decl: "fields_of (h ! a) var = Some x0"
    and full: "\<not> length (mods (h ! a)) \<le> 2 * p (h ! a)"
    and cb: "copy_back (pt (h ! a)) (back_of (h ! a)) = Ok nb"
    and run: "write_node slot (Suc fuel) a t var val h = (r, h')"
  shows "\<exists>r1 h1. fix_targets (pt (h ! a)) (length h) a (h @ [split_node (h ! a) var val nb]) = (r1, h1) \<and>
     (if r1 = Ok ()
      then cascade_ptrs slot (write_at slot fuel) (Suc fuel) (pt (h ! a)) t (length h) h1 = (r, h')
      else (r, h') = (r1, h1))"
proof -
  let ?h0 = "h @ [split_node (h ! a) var val nb]"
  obtain r1 h1 where f: "fix_targets (pt (h ! a)) (length h) a ?h0 = (r1, h1)"
    by (cases "fix_targets (pt (h ! a)) (length h) a ?h0")
  from run [unfolded write_node_split [OF a decl full]] cb f
  have "if r1 = Ok ()
      then cascade_ptrs slot (write_at slot fuel) (Suc fuel) (pt (h ! a)) t (length h) h1 = (r, h')
      else (r, h') = (r1, h1)"
    by (cases r1) (auto simp: write_at_def)
  with f show ?thesis by blast
qed

lemma write_node_Ok_copy_back:
  assumes a: "a < length h" and decl: "fields_of (h ! a) var = Some x0"
    and full: "\<not> length (mods (h ! a)) \<le> 2 * p (h ! a)"
    and run: "write_node slot fuel a t var val h = (Ok (), h')"
  shows "\<exists>f nb. fuel = Suc f \<and> copy_back (pt (h ! a)) (back_of (h ! a)) = Ok nb"
proof (cases fuel)
  case 0
  with run show ?thesis by simp
next
  case (Suc f)
  from run [unfolded Suc write_node_split [OF a decl full]] Suc show ?thesis
    by (cases "copy_back (pt (h ! a)) (back_of (h ! a))") auto
qed

lemma write_node_split_rel:
  assumes cr: "closed_rel t R" and a: "a < length h" and decl: "fields_of (h ! a) var = Some x0"
    and full: "\<not> length (mods (h ! a)) \<le> 2 * p (h ! a)"
    and cb: "copy_back (pt (h ! a)) (back_of (h ! a)) = Ok nb"
    and run: "write_node slot (Suc fuel) a t var val h = (r, h')"
  shows "R (h @ [split_node (h ! a) var val nb]) h'"
proof -
  let ?h0 = "h @ [split_node (h ! a) var val nb]"
  from write_node_split_steps [OF a decl full cb run]
  obtain r1 h1 where f: "fix_targets (pt (h ! a)) (length h) a ?h0 = (r1, h1)"
    and c: "if r1 = Ok ()
      then cascade_ptrs slot (write_at slot fuel) (Suc fuel) (pt (h ! a)) t (length h) h1 = (r, h')
      else (r, h') = (r1, h1)"
    by blast
  have R1: "R ?h0 h1" using fix_targets_rel [OF cr f] .
  show ?thesis
  proof (cases "r1 = Ok ()")
    case True
    with c have "cascade_ptrs slot (write_at slot fuel) (Suc fuel) (pt (h ! a)) t (length h) h1 = (r, h')"
      by simp
    then have "R h1 h'"
      by (rule cascade_ptrs_rel [OF cr, rotated]) (erule write_at_rel [OF cr])
    with R1 show ?thesis by (rule closed_rel_trans [OF cr])
  next
    case False
    with c R1 show ?thesis by simp
  qed
qed

text \<open>
  The node a split has made: it is at the first new address, it has the fields the
  split gave it, and its log holds only entries of the version of the write.
\<close>

lemma write_node_split_node:
  assumes a: "a < length h" and decl: "fields_of (h ! a) var = Some x0"
    and full: "\<not> length (mods (h ! a)) \<le> 2 * p (h ! a)"
    and cb: "copy_back (pt (h ! a)) (back_of (h ! a)) = Ok nb"
    and run: "write_node slot (Suc fuel) a t var val h = (r, h')"
  shows "length h < length h' \<and>
     fields_of (h' ! length h) =
       (fold_mods (mods (h ! a)) (fields_of (new_node (dt (h ! a)) (pt (h ! a)) (p (h ! a)))))(var \<mapsto> val) \<and>
     list_all (\<lambda>e. fst e = t) (mods (h' ! length h))"
proof -
  let ?n = "split_node (h ! a) var val nb"
  have "heap_ext (\<lambda>x. x = t) (h @ [?n]) h'"
    by (rule write_node_split_rel [OF closed_rel_heap_ext a decl full cb run]) simp
  then have len: "length h < length h'" and ne: "node_ext (\<lambda>x. x = t) ?n (h' ! length h)"
    by (auto simp: heap_ext_iff dest: spec [of _ "length h"])
  from ne have "fields_of (h' ! length h) = fields_of ?n"
    and "list_all (\<lambda>e. fst e = t) (drop (length (mods ?n)) (mods (h' ! length h)))"
    by (simp_all add: node_ext_def)
  with len show ?thesis by (simp add: split_node_def new_node_def)
qed

section \<open>Reading what was written\<close>

text \<open>
  C6, as the code has it. On a node whose log has room, that is, holds at most \<open>2p\<close>
  entries, \<open>write(now, var, x)\<close> of a declared tag returns, and \<open>read(var, now)\<close> on the
  same node then returns \<open>x\<close>, when \<open>now\<close> is no smaller than the versions in the log.
  On a node whose log is full the node keeps its log and its fields, so that every read
  on it returns what it returned before; a write that returns has made a copy of the
  node, at the first new address, and put \<open>x\<close> in the baseline fields of the copy.
\<close>

theorem read_your_write:
  assumes "a < length h" and "fields_of (h ! a) var \<noteq> None"
    and "\<forall>e\<in>set (mods (h ! a)). fst e \<le> t"
  shows "(length (mods (h ! a)) \<le> 2 * p (h ! a) \<longrightarrow>
            fst (write_node slot (Suc fuel) a t var x h) = Ok () \<and>
            read (snd (write_node slot (Suc fuel) a t var x h) ! a) var t = Ok x) \<and>
         (2 * p (h ! a) < length (mods (h ! a)) \<longrightarrow>
            read (snd (write_node slot (Suc fuel) a t var x h) ! a) var' v = read (h ! a) var' v \<and>
            (fst (write_node slot (Suc fuel) a t var x h) = Ok () \<longrightarrow>
               length h < length (snd (write_node slot (Suc fuel) a t var x h)) \<and>
               fields_of (snd (write_node slot (Suc fuel) a t var x h) ! length h) var = Some x))"
proof (intro conjI impI)
  assume room: "length (mods (h ! a)) \<le> 2 * p (h ! a)"
  from assms(2) obtain x0 where decl: "fields_of (h ! a) var = Some x0" by blast
  note w = write_node_log [OF assms(1) decl room, of slot fuel t x]
  show "fst (write_node slot (Suc fuel) a t var x h) = Ok ()" unfolding w by simp
  from assms(1,3) decl show "read (snd (write_node slot (Suc fuel) a t var x h) ! a) var t = Ok x"
    unfolding w by (simp add: read_def read_loop_snoc)
next
  assume full: "2 * p (h ! a) < length (mods (h ! a))"
  obtain r h' where w: "write_node slot (Suc fuel) a t var x h = (r, h')"
    by (cases "write_node slot (Suc fuel) a t var x h")
  from write_node_full_kept [OF assms(1) full w]
  show "read (snd (write_node slot (Suc fuel) a t var x h) ! a) var' v = read (h ! a) var' v"
    unfolding w by (simp add: read_def split: option.splits)
next
  assume full: "2 * p (h ! a) < length (mods (h ! a))"
    and ok: "fst (write_node slot (Suc fuel) a t var x h) = Ok ()"
  obtain h' where w: "write_node slot (Suc fuel) a t var x h = (Ok (), h')"
    using ok by (cases "write_node slot (Suc fuel) a t var x h") simp
  from assms(2) obtain x0 where decl: "fields_of (h ! a) var = Some x0" by blast
  from full have nr: "\<not> length (mods (h ! a)) \<le> 2 * p (h ! a)" by simp
  from write_node_Ok_copy_back [OF assms(1) decl nr w]
  obtain nb where cb: "copy_back (pt (h ! a)) (back_of (h ! a)) = Ok nb" by blast
  from write_node_split_node [OF assms(1) decl nr cb w]
  show "length h < length (snd (write_node slot (Suc fuel) a t var x h))"
    and "fields_of (snd (write_node slot (Suc fuel) a t var x h) ! length h) var = Some x"
    unfolding w by simp_all
qed

theorem read_your_write_witness:
  "\<forall>slot.
   1 < length (heap (full_root slot)) \<and> fields_of (heap (full_root slot) ! 1) ''value'' \<noteq> None \<and>
   map fst (mods (heap (full_root slot) ! 1)) = [1] \<and>
   length (mods (heap (full_root slot) ! 1)) \<le> 2 * p (heap (full_root slot) ! 1) \<and>
   fst (write_node slot 10 1 3 ''value'' (VInt 7) (heap (full_root slot))) = Ok () \<and>
   read (snd (write_node slot 10 1 3 ''value'' (VInt 7) (heap (full_root slot))) ! 1) ''value'' 3 = Ok (VInt 7) \<and>
   fields_of (heap (full_root slot) ! 0) ''value'' \<noteq> None \<and>
   map fst (mods (heap (full_root slot) ! 0)) = [0, 1, 2] \<and>
   2 * p (heap (full_root slot) ! 0) < length (mods (heap (full_root slot) ! 0)) \<and>
   fst (write_node slot 10 0 3 ''value'' (VInt 7) (heap (full_root slot))) = Ok () \<and>
   length (heap (full_root slot)) < length (snd (write_node slot 10 0 3 ''value'' (VInt 7) (heap (full_root slot)))) \<and>
   fields_of (snd (write_node slot 10 0 3 ''value'' (VInt 7) (heap (full_root slot))) ! length (heap (full_root slot)))
     ''value'' = Some (VInt 7)"
proof
  fix slot :: slots
  let ?h = "heap (full_root slot)"
  have a: "1 < length ?h" by code_simp
  then have a0: "0 < length ?h" by auto
  have d: "fields_of (?h ! 1) ''value'' \<noteq> None" by code_simp
  have m: "map fst (mods (?h ! 1)) = [1]" by code_simp
  have "\<forall>x\<in>set (map fst (mods (?h ! 1))). x \<le> 3" unfolding m by simp
  then have v: "\<forall>e\<in>set (mods (?h ! 1)). fst e \<le> 3" by simp
  have l: "length (mods (?h ! 1)) \<le> 2 * p (?h ! 1)" by code_simp
  have d0: "fields_of (?h ! 0) ''value'' \<noteq> None" by code_simp
  have m0: "map fst (mods (?h ! 0)) = [0, 1, 2]" by code_simp
  have "\<forall>x\<in>set (map fst (mods (?h ! 0))). x \<le> 3" unfolding m0 by simp
  then have v0: "\<forall>e\<in>set (mods (?h ! 0)). fst e \<le> 3" by simp
  have l0: "2 * p (?h ! 0) < length (mods (?h ! 0))" by code_simp
  have ok0: "fst (write_node slot 10 0 3 ''value'' (VInt 7) ?h) = Ok ()" by code_simp
  have n: "(10::nat) = Suc 9" by simp
  from read_your_write [OF a d v, of slot 9 "VInt 7"] l
  have A: "fst (write_node slot 10 1 3 ''value'' (VInt 7) ?h) = Ok () \<and>
           read (snd (write_node slot 10 1 3 ''value'' (VInt 7) ?h) ! 1) ''value'' 3 = Ok (VInt 7)"
    unfolding n by blast
  from read_your_write [OF a0 d0 v0, of slot 9 "VInt 7"] l0 ok0
  have B: "length ?h < length (snd (write_node slot 10 0 3 ''value'' (VInt 7) ?h)) \<and>
           fields_of (snd (write_node slot 10 0 3 ''value'' (VInt 7) ?h) ! length ?h) ''value'' = Some (VInt 7)"
    unfolding n by blast
  from A B a d m l d0 m0 l0 ok0
  show "1 < length (heap (full_root slot)) \<and> fields_of (heap (full_root slot) ! 1) ''value'' \<noteq> None \<and>
   map fst (mods (heap (full_root slot) ! 1)) = [1] \<and>
   length (mods (heap (full_root slot) ! 1)) \<le> 2 * p (heap (full_root slot) ! 1) \<and>
   fst (write_node slot 10 1 3 ''value'' (VInt 7) (heap (full_root slot))) = Ok () \<and>
   read (snd (write_node slot 10 1 3 ''value'' (VInt 7) (heap (full_root slot))) ! 1) ''value'' 3 = Ok (VInt 7) \<and>
   fields_of (heap (full_root slot) ! 0) ''value'' \<noteq> None \<and>
   map fst (mods (heap (full_root slot) ! 0)) = [0, 1, 2] \<and>
   2 * p (heap (full_root slot) ! 0) < length (mods (heap (full_root slot) ! 0)) \<and>
   fst (write_node slot 10 0 3 ''value'' (VInt 7) (heap (full_root slot))) = Ok () \<and>
   length (heap (full_root slot)) < length (snd (write_node slot 10 0 3 ''value'' (VInt 7) (heap (full_root slot)))) \<and>
   fields_of (snd (write_node slot 10 0 3 ''value'' (VInt 7) (heap (full_root slot))) ! length (heap (full_root slot)))
     ''value'' = Some (VInt 7)"
    by blast
qed

text \<open>
  C6 fails on the code when the log is full: the root of the list built by
  \<open>set_root_value(1)\<close>, \<open>append(2)\<close>, \<open>modify_ith_node_val(0, 5)\<close> holds three entries, of
  versions 0, 1, 2. \<open>write(3, 'value', 7)\<close> on it returns, and \<open>read('value', 3)\<close> on
  it still returns 5: the value went to a new node.
\<close>

theorem write_full_read_old_counterexample:
  "\<forall>slot.
   0 < length (heap (full_root slot)) \<and> fields_of (heap (full_root slot) ! 0) ''value'' \<noteq> None \<and>
   map fst (mods (heap (full_root slot) ! 0)) = [0, 1, 2] \<and>
   fst (write_node slot 10 0 3 ''value'' (VInt 7) (heap (full_root slot))) = Ok () \<and>
   read (snd (write_node slot 10 0 3 ''value'' (VInt 7) (heap (full_root slot))) ! 0) ''value'' 3 = Ok (VInt 5)"
  by (rule allI) code_simp

section \<open>The bound on the log and the split\<close>









section \<open>Deleting the last element\<close>




section \<open>The scenario of the source file\<close>

text \<open>
  C5. From a fresh list with the root seeded to 1, appending 2, 3, 4, 5 renders
  \<open>1->2->3->4->5->END\<close>; then \<open>modify_ith_node_val(2, 20)\<close>,
  \<open>insert_after_ith_node(2, 22)\<close>, \<open>modify_ith_node_val(1, 10)\<close> and
  \<open>delete_ith_node(2)\<close> render as the source file prints them, every call returns,
  and rendering at each checkpoint version 5, 7, 9, 11, 13 gives, after every later
  step, the render observed at that checkpoint. This holds under every assignment of
  slots: no loop of the scenario meets a full referencer.
\<close>

theorem main_scenario:
  "map (\<lambda>k. (fst (main_upto slot k), str_current 10 (snd (main_upto slot k)))) [6, 8, 10, 12, 14] =
     [(Ok (), Ok ''1->2->3->4->5->END''),
      (Ok (), Ok ''1->2->20->4->5->END''),
      (Ok (), Ok ''1->2->20->22->4->5->END''),
      (Ok (), Ok ''1->10->20->22->4->5->END''),
      (Ok (), Ok ''1->10->22->4->5->END'')] \<and>
   map (\<lambda>k. timestamp (snd (main_upto slot k)) - 1) [6, 8, 10, 12, 14] = [5, 7, 9, 11, 13] \<and>
   map (\<lambda>k. map (str_at 10 (snd (main_upto slot k))) (take (k div 2 - 2) [5, 7, 9, 11, 13]))
       [6, 8, 10, 12, 14] =
     [[Ok ''1->2->3->4->5->END''],
      [Ok ''1->2->3->4->5->END'', Ok ''1->2->20->4->5->END''],
      [Ok ''1->2->3->4->5->END'', Ok ''1->2->20->4->5->END'', Ok ''1->2->20->22->4->5->END''],
      [Ok ''1->2->3->4->5->END'', Ok ''1->2->20->4->5->END'', Ok ''1->2->20->22->4->5->END'',
       Ok ''1->10->20->22->4->5->END''],
      [Ok ''1->2->3->4->5->END'', Ok ''1->2->20->4->5->END'', Ok ''1->2->20->22->4->5->END'',
       Ok ''1->10->20->22->4->5->END'', Ok ''1->10->22->4->5->END'']]"
  by code_simp

section \<open>A split whose new node has no successor\<close>

text \<open>
  C10. On a list of one node, the seed and three calls of \<open>modify_ith_node_val(0, _)\<close>
  are four writes of the data tag to the root: the fourth overflows the log, and the
  split raises \<open>AttributeError\<close> when it calls \<open>set_back\<close> on the absent successor of
  the new node. The root keeps its log and its fields, and the list renders as before,
  under every assignment of slots.
\<close>

theorem split_without_successor_raises:
  "fst (run_ops slot 10 seeded_thrice_ops LinkedList) = Ok () \<and>
   length (mods (heap (seeded_thrice slot) ! root (seeded_thrice slot))) = 3 \<and>
   read (heap (seeded_thrice slot) ! root (seeded_thrice slot)) ''next_ptr'' (timestamp (seeded_thrice slot)) = Ok VNone \<and>
   fst (run_op slot 10 (ModifyAt 0 (VInt 4)) (seeded_thrice slot)) = Raise AttributeError \<and>
   (let s' = snd (run_op slot 10 (ModifyAt 0 (VInt 4)) (seeded_thrice slot)) in
      root s' = root (seeded_thrice slot) \<and>
      mods (heap s' ! root s') = mods (heap (seeded_thrice slot) ! root (seeded_thrice slot)) \<and>
      map (fields_of (heap s' ! root s')) [''value'', ''next_ptr''] =
        map (fields_of (heap (seeded_thrice slot) ! root (seeded_thrice slot))) [''value'', ''next_ptr''] \<and>
      str_current 10 s' = Ok ''3->END'' \<and>
      str_current 10 (seeded_thrice slot) = Ok ''3->END'')"
  by code_simp

section \<open>The reverse sets\<close>

text \<open>
  C2 fails on the code. \<open>insert_after_ith_node\<close> calls \<open>new.set_back('next_ptr', cursor)\<close>
  after \<open>cursor.write\<close>; when that write splits the cursor, the split has already made
  the copy of the cursor the only referencer of the new node, and the late call adds the
  old cursor back: the reverse set of the inserted node holds two nodes. Here the cursor
  is the root, with a full log; in the scenario of the source file the same happens to
  the node inserted by \<open>insert_after_ith_node(2, 22)\<close>. Both under every assignment
  of slots.
\<close>

theorem insert_after_split_two_referencers:
  "fst (run_ops slot 10 full_root_ops LinkedList) = Ok () \<and>
   fst (run_op slot 10 (InsertAfter 0 (VInt 9)) (full_root slot)) = Ok () \<and>
   back_of (heap (snd (run_op slot 10 (InsertAfter 0 (VInt 9)) (full_root slot))) ! 2) ''next_ptr'' =
     Some [VRef 3, VRef 0] \<and>
   p (heap (snd (run_op slot 10 (InsertAfter 0 (VInt 9)) (full_root slot))) ! 2) = 1 \<and>
   fst (main_upto slot 10) = Ok () \<and>
   back_of (heap (snd (main_upto slot 10)) ! 5) ''next_ptr'' = Some [VRef 6, VRef 2]"
  by code_simp

section \<open>A loop over a reverse set that its body changes\<close>

text \<open>
  In the list built by \<open>set_root_value(1)\<close>, \<open>append(2)\<close>, \<open>append(3)\<close>,
  \<open>modify_ith_node_val(0, 1)\<close>, \<open>modify_ith_node_val(1, 2)\<close> the root and the second node
  both hold three entries. \<open>modify_ith_node_val(1, 5)\<close> splits the second node; the loop
  over the reverse set of its copy writes the pointer to the copy into the root, which
  splits in its turn, and that split puts the copy of the root into the set of the loop
  in place of the root. If the slot of the copy of the root lies ahead, the loop
  visits it and writes the pointer into its log as well; if it lies behind, it does
  not. Each of the two overflowing writes has made one node.
\<close>

lemma loop_visits_copy_ahead:
  "fst (run_op slots_ahead 10 (ModifyAt 1 (VInt 5)) (two_full slots_ahead)) = Ok () \<and>
   map mods (drop 3 (heap (snd (run_op slots_ahead 10 (ModifyAt 1 (VInt 5)) (two_full slots_ahead))))) =
     [[], [(5, ''next_ptr'', VRef 3)]] \<and>
   fst (run_op slots_behind 10 (ModifyAt 1 (VInt 5)) (two_full slots_behind)) = Ok () \<and>
   map mods (drop 3 (heap (snd (run_op slots_behind 10 (ModifyAt 1 (VInt 5)) (two_full slots_behind))))) =
     [[], []] \<and>
   map (\<lambda>n. back_of n ''next_ptr'')
       (heap (snd (run_op slots_ahead 10 (ModifyAt 1 (VInt 5)) (two_full slots_ahead)))) =
     [Some [], Some [VRef 0], Some [VRef 3], Some [VRef 4], Some []]"
  by code_simp

end
